theory Spec2Isabelle
  imports Main
begin

chapter \<open>A bulk-exploration client for a repository platform\<close>

text \<open>
  A shallow embedding of the request executor, the page aggregation, the exhaustive
  search, the tree walk and the contribution classifier of the client, followed by the
  properties of the specification that hold of them and the inputs on which the others
  fail. The platform API client is a parameter of every operation.
\<close>

section \<open>Data model\<close>

text \<open>
  The records of the platform API client that the code reads. Every field of those
  records is a pointer in the source, so a field that may be absent is an \<open>option\<close>; the
  getters (\<open>GetLogin\<close>, \<open>GetDate\<close>, \<open>GetType\<close>, ...) are nil-safe in the client library and
  return the zero value of the field's type for an absent receiver or an absent field.
  The elements of a decoded list are taken to be present. Go's \<open>int\<close> is modelled as
  \<open>int\<close>: star counts, page numbers and lengths stay far inside 64 bits on the paths
  the theorems below follow. Time is an \<open>int\<close> of nanoseconds since the Unix epoch, a
  duration an \<open>int\<close> of nanoseconds.
\<close>

record user =
  Login :: "string option"

record commit_author =
  Date :: "int option"

record git_commit =
  GitAuthor :: "commit_author option"

record repository_commit =
  Commit :: "git_commit option"
  Author :: "user option"
  Committer :: "user option"

record repository =
  FullName :: "string option"
  StargazersCount :: "int option"

record repository_content =
  Type :: "string option"
  Path :: "string option"

record list_options =
  PerPage :: int
  Page :: int

record response =
  StatusCode :: int
  NextPage :: int
  RateReset :: int

text \<open>
  The errors the API client reports. \<open>RateLimitError\<close> is the one that
  \<open>isRateLimitError\<close> recognises by its dynamic type.
\<close>

datatype api_error = RateLimitError | AbuseRateLimitError | ErrorResponse | TransportError

text \<open>
  One call of the API client returns a decoded payload, a response (nil when the
  transport failed) and an error. An endpoint takes its arguments and the number of
  calls the process has made before this one, so that a scripted endpoint can answer
  differently from one attempt to the next. The ten-second deadline that the closure
  puts on each call is enforced by the client: a call that exceeds it returns an error.
\<close>

record 'a outcome =
  payload :: 'a
  resp :: "response option"
  err :: "api_error option"

text \<open>
  The state outside the functions: the clock, the number of API calls made, whether
  the process-wide \<open>ResponseCallback\<close> is set, and the responses it has been given.
\<close>

record world =
  now :: int
  calls :: nat
  ResponseCallback_set :: bool
  observed :: "response option list"

text \<open>
  \<open>ListContents\<close> fails either in \<open>Validate\<close> or in the API call.
\<close>

datatype listing_error = InvalidRequest | RequestError api_error

datatype panic = NilResponse | NilCallback | NilCommit | PanicWith listing_error

datatype attempt_error =
    RequestFailed api_error
  | Relayed api_error
  | BadStatus int

datatype error =
    ErrNotFound
  | Aggregated "attempt_error list"
  | Invalid string
  | ListingFailed listing_error
  | Visitor string
  | Panic panic

datatype attempt_status = Done | Failed attempt_error | Panicked panic

definition second :: int where
  "second = 1000000000"

definition GetLogin :: "user option \<Rightarrow> string" where
  "GetLogin u = (case u of None \<Rightarrow> [] | Some v \<Rightarrow> (case Login v of None \<Rightarrow> [] | Some s \<Rightarrow> s))"

definition zero_time :: int where
  "zero_time = - 62135596800 * 1000000000"

definition GetDate :: "commit_author option \<Rightarrow> int" where
  "GetDate a = (case a of None \<Rightarrow> zero_time
                | Some v \<Rightarrow> (case Date v of None \<Rightarrow> zero_time | Some t \<Rightarrow> t))"

definition GetStargazersCount :: "repository \<Rightarrow> int" where
  "GetStargazersCount r = (case StargazersCount r of None \<Rightarrow> 0 | Some n \<Rightarrow> n)"

definition GetFullName :: "repository \<Rightarrow> string" where
  "GetFullName r = (case FullName r of None \<Rightarrow> [] | Some s \<Rightarrow> s)"

definition GetType :: "repository_content \<Rightarrow> string" where
  "GetType v = (case Type v of None \<Rightarrow> [] | Some s \<Rightarrow> s)"

definition GetPath :: "repository_content \<Rightarrow> string" where
  "GetPath v = (case Path v of None \<Rightarrow> [] | Some s \<Rightarrow> s)"

text \<open>\<open>time.Sleep\<close>: a negative or zero duration returns at once.\<close>

definition Sleep :: "int \<Rightarrow> world \<Rightarrow> world" where
  "Sleep d w = (if 0 < d then w\<lparr>now := now w + d\<rparr> else w)"

text \<open>\<open>Time.Sub\<close> saturates at the largest and smallest duration.\<close>

definition time_Sub :: "int \<Rightarrow> int \<Rightarrow> int" where
  "time_Sub t u =
     (let d = t - u
      in if 9223372036854775807 < d then 9223372036854775807
         else if d < - 9223372036854775808 then - 9223372036854775808
         else d)"

section \<open>RequestExecutor\<close>

definition onResponse :: "response option \<Rightarrow> world \<Rightarrow> world" where
  "onResponse r w = (if ResponseCallback_set w then w\<lparr>observed := observed w @ [r]\<rparr> else w)"

text \<open>
  The older file calls \<open>ResponseCallback(resp)\<close> with no nil check: the call of a nil
  function value panics.
\<close>

definition callResponseCallback :: "response option \<Rightarrow> world \<Rightarrow> panic + world" where
  "callResponseCallback r w =
     (if ResponseCallback_set w then Inr (w\<lparr>observed := observed w @ [r]\<rparr>) else Inl NilCallback)"

definition isRateLimitError :: "api_error option \<Rightarrow> bool" where
  "isRateLimitError e = (case e of Some RateLimitError \<Rightarrow> True | _ \<Rightarrow> False)"

definition handleRateLimitError ::
  "api_error option \<Rightarrow> response option \<Rightarrow> world \<Rightarrow> panic + (bool \<times> world)" where
  "handleRateLimitError e r w =
     (if isRateLimitError e then
        (case r of
           None \<Rightarrow> Inl NilResponse
         | Some rs \<Rightarrow> Inr (True, Sleep (time_Sub (RateReset rs) (now w)) w))
      else Inr (False, w))"

text \<open>
  The closure that every getter and lister hands to \<open>RetryExponentialBackoff\<close>. The
  source repeats it verbatim in each function, with a different client call; \<open>call\<close> is
  that client call with its arguments fixed. The closure assigns the call's results to
  variables of the enclosing function (\<open>repos\<close>, \<open>resp\<close>), which the function reads
  after the retries: they are the first component of the state. \<open>legacy\<close> selects the
  older file's direct call of \<open>ResponseCallback\<close>.
\<close>

definition attempt ::
  "bool \<Rightarrow> (nat \<Rightarrow> 'a outcome) \<Rightarrow> 'a outcome \<times> world \<Rightarrow> attempt_status \<times> ('a outcome \<times> world)" where
  "attempt legacy call s =
     (let w = snd s;
          out = call (calls w);
          w1 = w\<lparr>calls := Suc (calls w)\<rparr>
      in case err out of
           Some e \<Rightarrow> (Failed (RequestFailed e), (out, w1))
         | None \<Rightarrow>
             (case (if legacy then callResponseCallback (resp out) w1
                    else Inr (onResponse (resp out) w1)) of
                Inl p \<Rightarrow> (Panicked p, (out, w1))
              | Inr w2 \<Rightarrow>
                  (case handleRateLimitError (err out) (resp out) w2 of
                     Inl p \<Rightarrow> (Panicked p, (out, w2))
                   | Inr (handled, w3) \<Rightarrow>
                       (if handled then
                          (case err out of
                             None \<Rightarrow> (Done, (out, w3))
                           | Some e \<Rightarrow> (Failed (Relayed e), (out, w3)))
                        else
                          (case resp out of
                             None \<Rightarrow> (Panicked NilResponse, (out, w3))
                           | Some r \<Rightarrow>
                               if StatusCode r \<noteq> 200 \<and> StatusCode r \<noteq> 404 \<and> StatusCode r \<noteq> 204
                               then (Failed (BadStatus (StatusCode r)), (out, w3))
                               else (Done, (out, w3)))))))"

text \<open>
  Modelled from the spec: \<open>RetryExponentialBackoff\<close> belongs to an imported library
  whose source is not part of the repository. The spec gives its contract: at most
  \<open>attempts\<close> attempts; the first attempt that reports no error ends the retries with
  success (no errors returned); between two attempts the executor sleeps, first for
  the base delay and twice as long after each further failure; when every attempt has
  failed the errors of all attempts are returned. It knows nothing of the kind of the
  error that the closure returns.
\<close>

fun RetryExponentialBackoff_loop ::
  "nat \<Rightarrow> int \<Rightarrow> ('s \<times> world \<Rightarrow> attempt_status \<times> ('s \<times> world)) \<Rightarrow> attempt_error list
     \<Rightarrow> 's \<times> world \<Rightarrow> (panic + attempt_error list) \<times> ('s \<times> world)" where
  "RetryExponentialBackoff_loop 0 sleep task errs s = (Inr errs, s)"
| "RetryExponentialBackoff_loop (Suc n) sleep task errs s =
     (case task s of
        (Done, s') \<Rightarrow> (Inr [], s')
      | (Panicked p, s') \<Rightarrow> (Inl p, s')
      | (Failed e, s') \<Rightarrow>
          (if n = 0 then (Inr (errs @ [e]), s')
           else RetryExponentialBackoff_loop n (2 * sleep) task (errs @ [e])
                  (fst s', Sleep sleep (snd s'))))"

definition RetryExponentialBackoff ::
  "nat \<Rightarrow> int \<Rightarrow> ('s \<times> world \<Rightarrow> attempt_status \<times> ('s \<times> world))
     \<Rightarrow> 's \<times> world \<Rightarrow> (panic + attempt_error list) \<times> ('s \<times> world)" where
  "RetryExponentialBackoff attempts sleep task s =
     RetryExponentialBackoff_loop attempts sleep task [] s"

text \<open>
  What every lister does with the outcome of the retries before it looks at the page:
  a non-empty error list is the aggregated failure, then a 404 is \<open>ErrNotFound\<close>.
  Reading \<open>resp.StatusCode\<close> of a nil response panics.
\<close>

definition after_retries ::
  "(panic + attempt_error list) \<times> ('a outcome \<times> world) \<Rightarrow> (error + 'a \<times> response) \<times> world" where
  "after_retries x =
     (case x of
        (Inl p, (cap, w)) \<Rightarrow> (Inl (Panic p), w)
      | (Inr errs, (cap, w)) \<Rightarrow>
          (if errs \<noteq> [] then (Inl (Aggregated errs), w)
           else case resp cap of
                  None \<Rightarrow> (Inl (Panic NilResponse), w)
                | Some r \<Rightarrow>
                    if StatusCode r = 404 then (Inl ErrNotFound, w)
                    else (Inr (payload cap, r), w)))"

definition no_outcome :: "'a \<Rightarrow> 'a outcome" where
  "no_outcome z = \<lparr>payload = z, resp = None, err = None\<rparr>"

section \<open>PageAggregator\<close>

partial_function (option) ListReposByUser_loop ::
  "(string \<Rightarrow> list_options \<Rightarrow> nat \<Rightarrow> 'a list outcome) \<Rightarrow> string \<Rightarrow> list_options \<Rightarrow> 'a list
     \<Rightarrow> world \<Rightarrow> ((error + 'a list) \<times> world) option" where
  "ListReposByUser_loop client usr opt allRepos w =
     (case after_retries
             (RetryExponentialBackoff 5 second (attempt False (client usr opt)) (no_outcome [], w)) of
        (Inl e, w') \<Rightarrow> Some (Inl e, w')
      | (Inr (repos, r), w') \<Rightarrow>
          (if NextPage r = 0 then Some (Inr (allRepos @ repos), w')
           else ListReposByUser_loop client usr (opt\<lparr>Page := NextPage r\<rparr>) (allRepos @ repos) w'))"

definition ListReposByUser ::
  "(string \<Rightarrow> list_options \<Rightarrow> nat \<Rightarrow> 'a list outcome) \<Rightarrow> string \<Rightarrow> world
     \<Rightarrow> ((error + 'a list) \<times> world) option" where
  "ListReposByUser client usr w =
     ListReposByUser_loop client usr \<lparr>PerPage = 100, Page = 0\<rparr> [] w"

text \<open>
  \<open>GetPull\<close> looks at the status of the last response also when the retries are
  exhausted; the other getters and the listers return the aggregated failure first.
\<close>

definition GetPull ::
  "(string \<Rightarrow> string \<Rightarrow> int \<Rightarrow> nat \<Rightarrow> 'a option outcome) \<Rightarrow> string \<Rightarrow> string \<Rightarrow> int \<Rightarrow> world
     \<Rightarrow> (error + 'a option) \<times> world" where
  "GetPull client owner repo number w =
     (case RetryExponentialBackoff 5 second (attempt False (client owner repo number))
             (no_outcome None, w) of
        (Inl p, (cap, w')) \<Rightarrow> (Inl (Panic p), w')
      | (Inr errs, (cap, w')) \<Rightarrow>
          (case resp cap of
             None \<Rightarrow> (Inl (Panic NilResponse), w')
           | Some r \<Rightarrow>
               if errs \<noteq> [] then
                 (if StatusCode r = 404 then (Inl ErrNotFound, w')
                  else (Inl (Aggregated errs), w'))
               else if StatusCode r = 404 then (Inl ErrNotFound, w')
               else (Inr (payload cap), w')))"

record commits_list_options =
  AuthorFilter :: string
  PathFilter :: string
  ListOptions :: list_options

text \<open>
  The inner loop of \<open>ListCommits\<close> for a positive \<open>maxAge\<close>: a commit that is not too
  old is appended, the first one that is too old leaves the page loop
  (\<open>break PageLister\<close>, the flag \<open>True\<close>). \<open>time.Now()\<close> is read for every commit; the
  clock of the model moves only when the code sleeps, so it is the same for all
  commits of a page. \<open>commit.Commit.Author\<close> dereferences \<open>commit.Commit\<close>.
\<close>

definition isTooOld :: "int \<Rightarrow> int \<Rightarrow> git_commit \<Rightarrow> bool" where
  "isTooOld t maxAge gc = (maxAge < time_Sub t (GetDate (GitAuthor gc)))"

fun scan_commits ::
  "int \<Rightarrow> int \<Rightarrow> repository_commit list \<Rightarrow> repository_commit list
     \<Rightarrow> panic + (bool \<times> repository_commit list)" where
  "scan_commits t maxAge [] allCommits = Inr (False, allCommits)"
| "scan_commits t maxAge (commit # commits) allCommits =
     (case Commit commit of
        None \<Rightarrow> Inl NilCommit
      | Some gc \<Rightarrow>
          (if \<not> isTooOld t maxAge gc then scan_commits t maxAge commits (allCommits @ [commit])
           else Inr (True, allCommits)))"

partial_function (option) ListCommits_loop ::
  "(string \<Rightarrow> string \<Rightarrow> commits_list_options \<Rightarrow> nat \<Rightarrow> repository_commit list outcome)
     \<Rightarrow> string \<Rightarrow> string \<Rightarrow> commits_list_options \<Rightarrow> int \<Rightarrow> list_options
     \<Rightarrow> repository_commit list \<Rightarrow> world \<Rightarrow> ((error + repository_commit list) \<times> world) option" where
  "ListCommits_loop client owner repo options maxAge opt allCommits w =
     (case after_retries
             (RetryExponentialBackoff 5 second
                (attempt False (client owner repo (options\<lparr>ListOptions := opt\<rparr>)))
                (no_outcome [], w)) of
        (Inl e, w') \<Rightarrow> Some (Inl e, w')
      | (Inr (commits, r), w') \<Rightarrow>
          (case (if 0 < maxAge then scan_commits (now w') maxAge commits allCommits
                 else Inr (False, allCommits @ commits)) of
             Inl p \<Rightarrow> Some (Inl (Panic p), w')
           | Inr (stop, acc) \<Rightarrow>
               (if stop then Some (Inr acc, w')
                else if NextPage r = 0 then Some (Inr acc, w')
                else ListCommits_loop client owner repo options maxAge
                       (opt\<lparr>Page := NextPage r\<rparr>) acc w')))"

definition ListCommits ::
  "(string \<Rightarrow> string \<Rightarrow> commits_list_options \<Rightarrow> nat \<Rightarrow> repository_commit list outcome)
     \<Rightarrow> string \<Rightarrow> string \<Rightarrow> commits_list_options \<Rightarrow> int
     \<Rightarrow> world \<Rightarrow> ((error + repository_commit list) \<times> world) option" where
  "ListCommits client owner repo options maxAge w =
     ListCommits_loop client owner repo options maxAge \<lparr>PerPage = 100, Page = 0\<rparr> [] w"

section \<open>TreeWalker\<close>

record params =
  params_owner :: string
  params_repo :: string
  params_path :: string

text \<open>
  \<open>Validate\<close>: the validation library requires \<open>owner\<close> and \<open>repo\<close> to be non-empty.
\<close>

definition Validate :: "params \<Rightarrow> bool" where
  "Validate r = (params_owner r \<noteq> [] \<and> params_repo r \<noteq> [])"

definition ListContents ::
  "(string \<Rightarrow> string \<Rightarrow> string \<Rightarrow> nat \<Rightarrow> repository_content list outcome) \<Rightarrow> params \<Rightarrow> string
     \<Rightarrow> world \<Rightarrow> (listing_error + repository_content list \<times> response option) \<times> world" where
  "ListContents client r p w =
     (if \<not> Validate r then (Inl InvalidRequest, w)
      else let out = client (params_owner r) (params_repo r) p (calls w);
               w1 = w\<lparr>calls := Suc (calls w)\<rparr>
           in case err out of
                Some e \<Rightarrow> (Inl (RequestError e), w1)
              | None \<Rightarrow> (Inr (payload out, resp out), w1))"

definition IsDir :: "repository_content \<Rightarrow> bool" where
  "IsDir v = (GetType v = ''dir'')"

text \<open>
  After a listing that succeeded, both walk functions give the response to the
  observer and call \<open>handleRateLimitError\<close> with the error of the listing, which is nil
  at that point; \<open>return err\<close> then returns nil.
\<close>

definition after_listing :: "response option \<Rightarrow> world \<Rightarrow> panic + (bool \<times> world)" where
  "after_listing r w = handleRateLimitError None r (onResponse r w)"

text \<open>
  \<open>walkFiles\<close>: the visitor is a function on its own state \<open>'v\<close> (what the closure
  captures) that may report an error. The result is the error returned, if any. The
  recursion follows what the remote lists, so nothing bounds it.
\<close>

partial_function (option) walkFiles ::
  "(string \<Rightarrow> string \<Rightarrow> string \<Rightarrow> nat \<Rightarrow> repository_content list outcome) \<Rightarrow> params
     \<Rightarrow> (repository_content \<Rightarrow> 'v \<Rightarrow> string option \<times> 'v) \<Rightarrow> repository_content list
     \<Rightarrow> 'v \<times> world \<Rightarrow> (error option \<times> ('v \<times> world)) option" where
  "walkFiles client r walker content s =
     (case content of
        [] \<Rightarrow> Some (None, s)
      | v # rest \<Rightarrow>
          Option.bind
            (if IsDir v then
               (case ListContents client r (GetPath v) (snd s) of
                  (Inl e, w1) \<Rightarrow> Some (Some (ListingFailed e), (fst s, w1))
                | (Inr (directoryContent, rsp), w1) \<Rightarrow>
                    (case after_listing rsp w1 of
                       Inl p \<Rightarrow> Some (Some (Panic p), (fst s, w1))
                     | Inr (handled, w2) \<Rightarrow>
                         (if handled then Some (None, (fst s, w2))
                          else walkFiles client r walker directoryContent (fst s, w2))))
             else Some (None, s))
            (\<lambda>x. case x of
                    (Some e, s1) \<Rightarrow> Some (Some e, s1)
                  | (None, s1) \<Rightarrow>
                      (case walker v (fst s1) of
                         (Some e, vs) \<Rightarrow> Some (Some (Visitor e), (vs, snd s1))
                       | (None, vs) \<Rightarrow> walkFiles client r walker rest (vs, snd s1))))"

definition WalkFiles ::
  "(string \<Rightarrow> string \<Rightarrow> string \<Rightarrow> nat \<Rightarrow> repository_content list outcome) \<Rightarrow> params
     \<Rightarrow> (repository_content \<Rightarrow> 'v \<Rightarrow> string option \<times> 'v)
     \<Rightarrow> 'v \<times> world \<Rightarrow> (error option \<times> ('v \<times> world)) option" where
  "WalkFiles client r walker s =
     (if \<not> Validate r then Some (Some (Invalid ''params''), s)
      else case ListContents client r (params_path r) (snd s) of
             (Inl e, w1) \<Rightarrow> Some (Some (Panic (PanicWith e)), (fst s, w1))
           | (Inr (directoryContent, rsp), w1) \<Rightarrow>
               (case after_listing rsp w1 of
                  Inl p \<Rightarrow> Some (Some (Panic p), (fst s, w1))
                | Inr (handled, w2) \<Rightarrow>
                    (if handled then Some (None, (fst s, w2))
                     else walkFiles client r walker directoryContent (fst s, w2))))"

section \<open>ExhaustiveSearchEngine\<close>

text \<open>
  The query is a list of fragments that the source joins with spaces; the fragment
  \<open>stars:<=N\<close> is appended inside the closure when \<open>useStarBound\<close> is set. The language
  fragment carries the language as the library's \<open>ToTitle\<close> formats it.
\<close>

datatype fragment = LanguageIs string | ForkFalse | StarsLe int

record search_options =
  Sort :: string
  SearchListOptions :: list_options

record ListAllReposByLanguageOpts =
  Language :: string
  ExcludeForks :: bool
  MinStars :: int
  Limit :: int

definition Validate_opts :: "ListAllReposByLanguageOpts option \<Rightarrow> string option" where
  "Validate_opts opts =
     (case opts of
        None \<Rightarrow> Some ''opts is nil.''
      | Some x \<Rightarrow> if Language x = [] then Some ''opts.Language not provided.'' else None)"

text \<open>
  The local variables of the search loop. \<open>storeIndex\<close> is the index of the hash-search
  library, used only through \<open>Has\<close> and \<open>Add\<close> (\<open>OrderedAppend\<close> in the older file): a set
  of identifiers.
\<close>

record search_state =
  opt_Page :: int
  useStarBound :: bool
  starLowerBound :: int
  latestStarCount :: int
  allRepos :: "repository list"
  storeIndex :: "string set"

text \<open>
  The loop over the repositories of one page; the flag is \<open>True\<close> when the loop left
  through \<open>break GetterLoop\<close>.
\<close>

fun scan_repos ::
  "ListAllReposByLanguageOpts \<Rightarrow> repository list \<Rightarrow> search_state \<Rightarrow> bool \<times> search_state" where
  "scan_repos opts [] st = (False, st)"
| "scan_repos opts (repo # rest) st =
     (if GetStargazersCount repo < MinStars opts then (True, st)
      else if GetFullName repo \<notin> storeIndex st then
        (let st' = st\<lparr>latestStarCount := GetStargazersCount repo,
                      allRepos := allRepos st @ [repo],
                      storeIndex := insert (GetFullName repo) (storeIndex st)\<rparr>
         in if 0 < Limit opts \<and> Limit opts \<le> int (length (allRepos st')) then (True, st')
            else scan_repos opts rest st')
      else scan_repos opts rest st)"

definition queryFragments :: "ListAllReposByLanguageOpts \<Rightarrow> fragment list" where
  "queryFragments opts =
     [LanguageIs (Language opts)] @ (if ExcludeForks opts then [ForkFalse] else [])"

definition query_of :: "ListAllReposByLanguageOpts \<Rightarrow> search_state \<Rightarrow> fragment list" where
  "query_of opts st =
     (if useStarBound st then queryFragments opts @ [StarsLe (starLowerBound st)]
      else queryFragments opts)"

definition search_opt :: "search_state \<Rightarrow> search_options" where
  "search_opt st = \<lparr>Sort = ''stars'', SearchListOptions = \<lparr>PerPage = 100, Page = opt_Page st\<rparr>\<rparr>"

text \<open>The restart at the end of a run of pages: the new bound and page 1.\<close>

definition restart :: "search_state \<Rightarrow> search_state" where
  "restart st =
     (let latest = (if starLowerBound st = latestStarCount st then latestStarCount st - 1
                    else latestStarCount st)
      in st\<lparr>useStarBound := True, latestStarCount := latest, starLowerBound := latest,
            opt_Page := 1\<rparr>)"

partial_function (option) ListAllReposByLanguage_loop ::
  "(fragment list \<Rightarrow> search_options \<Rightarrow> nat \<Rightarrow> repository list outcome)
     \<Rightarrow> ListAllReposByLanguageOpts \<Rightarrow> search_state \<Rightarrow> world
     \<Rightarrow> ((error + repository list) \<times> world) option" where
  "ListAllReposByLanguage_loop client opts st w =
     (case after_retries
             (RetryExponentialBackoff 9999 second
                (attempt False (client (query_of opts st) (search_opt st))) (no_outcome [], w)) of
        (Inl e, w') \<Rightarrow> Some (Inl e, w')
      | (Inr (repos, r), w') \<Rightarrow>
          (case scan_repos opts repos st of
             (brk, st') \<Rightarrow>
               (if brk then Some (Inr (allRepos st'), w')
                else if NextPage r = 0 then
                  (if starLowerBound st' = 0 then Some (Inr (allRepos st'), w')
                   else ListAllReposByLanguage_loop client opts (restart st') w')
                else ListAllReposByLanguage_loop client opts (st'\<lparr>opt_Page := NextPage r\<rparr>) w')))"

definition ListAllReposByLanguage ::
  "(fragment list \<Rightarrow> search_options \<Rightarrow> nat \<Rightarrow> repository list outcome)
     \<Rightarrow> ListAllReposByLanguageOpts option \<Rightarrow> world
     \<Rightarrow> ((error + repository list) \<times> world) option" where
  "ListAllReposByLanguage client opts w =
     (case Validate_opts opts of
        Some e \<Rightarrow> Some (Inl (Invalid e), w)
      | None \<Rightarrow>
          (case opts of
             None \<Rightarrow> Some (Inl (Invalid ''opts is nil.''), w)
           | Some x \<Rightarrow>
               ListAllReposByLanguage_loop client x
                 \<lparr>opt_Page = 0, useStarBound = False, starLowerBound = - 1, latestStarCount = 0,
                  allRepos = [], storeIndex = {}\<rparr> w))"




section \<open>ContributionClassifier\<close>

definition isDirectCommit :: "repository_commit \<Rightarrow> bool" where
  "isDirectCommit commit = (GetLogin (Author commit) = GetLogin (Committer commit))"

definition isMergedByCommitterCommit :: "repository_commit \<Rightarrow> bool" where
  "isMergedByCommitterCommit commit = (GetLogin (Committer commit) = ''web-flow'')"

definition isModeratedPRCommit :: "repository_commit \<Rightarrow> bool" where
  "isModeratedPRCommit commit = (GetLogin (Author commit) \<noteq> GetLogin (Committer commit))"

text \<open>The \<open>for\<close> loop of \<open>isShadowMember\<close>: return true at the first direct commit.\<close>

fun isShadowMember :: "repository_commit list \<Rightarrow> bool" where
  "isShadowMember [] = False"
| "isShadowMember (commit # commits) =
     (if isDirectCommit commit then True else isShadowMember commits)"

section \<open>Scripted endpoints\<close>

text \<open>
  A paginated endpoint that serves the pages \<open>ps\<close>: page numbers 0 and 1 both ask for
  the first page, every answer is a 200 without error, and the next-page cursor is the
  number of the following page, or 0 on the last one.
\<close>

definition ok_response :: "int \<Rightarrow> response" where
  "ok_response n = \<lparr>StatusCode = 200, NextPage = n, RateReset = 0\<rparr>"

definition page_index :: "int \<Rightarrow> nat" where
  "page_index p = (if p \<le> 1 then 0 else nat (p - 1))"

definition serve_page :: "'a list list \<Rightarrow> list_options \<Rightarrow> 'a list outcome" where
  "serve_page ps opt =
     (let i = page_index (Page opt)
      in \<lparr>payload = (if i < length ps then ps ! i else []),
          resp = Some (ok_response (if Suc i < length ps then int i + 2 else 0)),
          err = None\<rparr>)"

text \<open>
  \<open>tooOld\<close> is the test of \<open>ListCommits\<close> on a commit that carries its git commit.
\<close>

definition tooOld :: "int \<Rightarrow> int \<Rightarrow> repository_commit \<Rightarrow> bool" where
  "tooOld t maxAge c = (case Commit c of None \<Rightarrow> False | Some gc \<Rightarrow> isTooOld t maxAge gc)"

text \<open>
  The number of pages a listing reads when it stops in the first page that holds an
  item failing \<open>ok\<close>: that page is the last one read.
\<close>

definition pages_read :: "('a \<Rightarrow> bool) \<Rightarrow> 'a list list \<Rightarrow> nat" where
  "pages_read ok ps = min (length ps) (Suc (length (takeWhile (list_all ok) ps)))"

text \<open>
  An endpoint that answers every call with a 404 response and the client's error for
  it, as the API client does for any status outside 2xx.
\<close>

definition not_found_outcome :: "'a \<Rightarrow> 'a outcome" where
  "not_found_outcome z =
     \<lparr>payload = z, resp = Some \<lparr>StatusCode = 404, NextPage = 0, RateReset = 0\<rparr>,
      err = Some ErrorResponse\<rparr>"

text \<open>
  An endpoint whose first \<open>k\<close> calls are rate-limited, with the reset time \<open>reset\<close> in the
  response, and whose later calls succeed with one page \<open>items\<close>.
\<close>

definition rate_limited_then_ok :: "nat \<Rightarrow> int \<Rightarrow> 'a list \<Rightarrow> nat \<Rightarrow> 'a list outcome" where
  "rate_limited_then_ok k reset items n =
     (if n < k then
        \<lparr>payload = [], resp = Some \<lparr>StatusCode = 403, NextPage = 0, RateReset = reset\<rparr>,
         err = Some RateLimitError\<rparr>
      else \<lparr>payload = items, resp = Some (ok_response 0), err = None\<rparr>)"

text \<open>
  A content tree, the entry that a listing shows for a node, and the order in which
  the spec says the nodes below a listing are visited: the nodes in listing order, a
  file at once, a directory after everything below it.
\<close>

datatype tree = File string | Dir string "tree list"

fun entry :: "tree \<Rightarrow> repository_content" where
  "entry (File p) = \<lparr>Type = Some ''file'', Path = Some p\<rparr>"
| "entry (Dir p ts) = \<lparr>Type = Some ''dir'', Path = Some p\<rparr>"

fun visit_order :: "tree \<Rightarrow> repository_content list" where
  "visit_order (File p) = [entry (File p)]"
| "visit_order (Dir p ts) = concat (map visit_order ts) @ [entry (Dir p ts)]"

text \<open>
  The remote serves a tree when listing the path of each of its directories succeeds,
  at any time, with the entries of the directory's children in their order.
\<close>

fun serves ::
  "(string \<Rightarrow> string \<Rightarrow> string \<Rightarrow> nat \<Rightarrow> repository_content list outcome) \<Rightarrow> params \<Rightarrow> tree \<Rightarrow> bool"
  where
  "serves client r (File p) = True"
| "serves client r (Dir p ts) =
     ((\<forall>n. err (client (params_owner r) (params_repo r) p n) = None \<and>
           payload (client (params_owner r) (params_repo r) p n) = map entry ts) \<and>
      list_all (serves client r) ts)"

text \<open>The visitor that records the nodes it is called on and never fails.\<close>

definition recorder :: "repository_content \<Rightarrow> repository_content list \<Rightarrow> string option \<times> repository_content list"
  where
  "recorder v seen = (None, seen @ [v])"

text \<open>
  The remote of the example \<open>root/{a.txt, sub/{b.txt}}\<close>, and a remote on which the
  listing of \<open>missing\<close> and of \<open>root/sub\<close> fails.
\<close>

definition example_remote :: "string \<Rightarrow> string \<Rightarrow> string \<Rightarrow> nat \<Rightarrow> repository_content list outcome" where
  "example_remote ow rp p n =
     (if p = ''root'' then
        \<lparr>payload = [entry (File ''root/a.txt''), entry (Dir ''root/sub'' [])],
         resp = Some (ok_response 0), err = None\<rparr>
      else if p = ''root/sub'' then
        \<lparr>payload = [entry (File ''root/sub/b.txt'')], resp = Some (ok_response 0), err = None\<rparr>
      else not_found_outcome [])"

definition broken_remote :: "string \<Rightarrow> string \<Rightarrow> string \<Rightarrow> nat \<Rightarrow> repository_content list outcome" where
  "broken_remote ow rp p n =
     (if p = ''root'' then
        \<lparr>payload = [entry (File ''root/a.txt''), entry (Dir ''root/sub'' []),
                    entry (File ''root/z.txt'')],
         resp = Some (ok_response 0), err = None\<rparr>
      else not_found_outcome [])"

definition example_params :: "string \<Rightarrow> params" where
  "example_params p = \<lparr>params_owner = ''o'', params_repo = ''r'', params_path = p\<rparr>"

text \<open>
  A search endpoint over a fixed dataset \<open>ds\<close>: the repositories that satisfy the
  \<open>stars:<=N\<close> fragments of the query, sorted by descending star count, cut to the
  window of the first \<open>cap\<close> results, and served in pages of the size the request asks
  for. The cursor is the number of the next page while the window has more items.
\<close>

definition matches :: "fragment list \<Rightarrow> repository \<Rightarrow> bool" where
  "matches q x =
     list_all (\<lambda>f. case f of StarsLe b \<Rightarrow> GetStargazersCount x \<le> b | _ \<Rightarrow> True) q"

definition search_window :: "nat \<Rightarrow> repository list \<Rightarrow> fragment list \<Rightarrow> repository list" where
  "search_window cap ds q = take cap (filter (matches q) (rev (sort_key GetStargazersCount ds)))"

definition search_endpoint ::
  "nat \<Rightarrow> repository list \<Rightarrow> fragment list \<Rightarrow> search_options \<Rightarrow> nat \<Rightarrow> repository list outcome"
  where
  "search_endpoint cap ds q opt n =
     (let per = nat (PerPage (SearchListOptions opt));
          i = page_index (Page (SearchListOptions opt))
      in \<lparr>payload = take per (drop (i * per) (search_window cap ds q)),
          resp = Some (ok_response
                         (if Suc i * per < length (search_window cap ds q) then int i + 2 else 0)),
          err = None\<rparr>)"

text \<open>An endpoint that serves one page, whatever the query.\<close>

definition one_page :: "'a list \<Rightarrow> fragment list \<Rightarrow> search_options \<Rightarrow> nat \<Rightarrow> 'a list outcome" where
  "one_page items q opt n = \<lparr>payload = items, resp = Some (ok_response 0), err = None\<rparr>"

definition repo_named :: "string \<Rightarrow> int \<Rightarrow> repository" where
  "repo_named name stars = \<lparr>FullName = Some name, StargazersCount = Some stars\<rparr>"

definition opts_for :: "string \<Rightarrow> ListAllReposByLanguageOpts" where
  "opts_for lang = \<lparr>Language = lang, ExcludeForks = False, MinStars = 0, Limit = 0\<rparr>"

text \<open>
  The two invariants of the search loop. \<open>seen_inv\<close>: the identifiers of the accepted
  repositories are pairwise different and all in the index. \<open>order_inv\<close>, for the
  search endpoint over a dataset: the accepted star counts do not increase, the latest
  star count is at most the last accepted one, and no repository that the current
  query still has to serve from the current page on has more stars than that.
\<close>

definition non_increasing :: "repository list \<Rightarrow> bool" where
  "non_increasing xs = sorted_wrt (\<lambda>a b. GetStargazersCount b \<le> GetStargazersCount a) xs"

definition seen_inv :: "search_state \<Rightarrow> bool" where
  "seen_inv st \<longleftrightarrow> distinct (map GetFullName (allRepos st)) \<and>
                  set (map GetFullName (allRepos st)) \<subseteq> storeIndex st"

definition upcoming ::
  "nat \<Rightarrow> repository list \<Rightarrow> ListAllReposByLanguageOpts \<Rightarrow> search_state \<Rightarrow> repository list" where
  "upcoming cap ds opts st =
     drop (page_index (opt_Page st) * 100) (search_window cap ds (query_of opts st))"

definition order_inv ::
  "nat \<Rightarrow> repository list \<Rightarrow> ListAllReposByLanguageOpts \<Rightarrow> search_state \<Rightarrow> bool" where
  "order_inv cap ds opts st \<longleftrightarrow>
     non_increasing (allRepos st) \<and>
     (allRepos st = [] \<or>
        latestStarCount st \<le> GetStargazersCount (last (allRepos st)) \<and>
        list_all (\<lambda>x. GetStargazersCount x \<le> latestStarCount st) (upcoming cap ds opts st))"



text \<open>Concrete values for the examples.\<close>

definition world0 :: world where
  "world0 = \<lparr>now = 0, calls = 0, ResponseCallback_set = False, observed = []\<rparr>"

definition commit_by :: "string \<Rightarrow> string \<Rightarrow> int \<Rightarrow> repository_commit" where
  "commit_by a c t =
     \<lparr>Commit = Some \<lparr>GitAuthor = Some \<lparr>Date = Some t\<rparr>\<rparr>,
      Author = Some \<lparr>Login = Some a\<rparr>, Committer = Some \<lparr>Login = Some c\<rparr>\<rparr>"

definition bare_commit :: repository_commit where
  "bare_commit = \<lparr>Commit = None, Author = None, Committer = None\<rparr>"

section \<open>Properties\<close>

subsection \<open>One successful request\<close>

lemma attempt_ok:
  assumes "err (call (calls w)) = None" "resp (call (calls w)) = Some r"
    "StatusCode r = 200 \<or> StatusCode r = 404 \<or> StatusCode r = 204"
  shows "attempt False call (c, w) =
           (Done, (call (calls w), onResponse (Some r) (w\<lparr>calls := Suc (calls w)\<rparr>)))"
  using assms
  by (auto simp: attempt_def Let_def handleRateLimitError_def isRateLimitError_def)

lemma retry_first_Done:
  assumes "0 < n" "task s = (Done, s')"
  shows "RetryExponentialBackoff n d task s = (Inr [], s')"
  using assms by (cases n) (simp_all add: RetryExponentialBackoff_def)

lemma fetch_ok:
  assumes "err (call (calls w)) = None" "resp (call (calls w)) = Some r"
    "StatusCode r = 200" "0 < n"
  shows "after_retries (RetryExponentialBackoff n d (attempt False call) (c, w)) =
           (Inr (payload (call (calls w)), r), onResponse (Some r) (w\<lparr>calls := Suc (calls w)\<rparr>))"
proof -
  have "attempt False call (c, w) =
          (Done, (call (calls w), onResponse (Some r) (w\<lparr>calls := Suc (calls w)\<rparr>)))"
    using assms(1-3) by (intro attempt_ok) auto
  then have "RetryExponentialBackoff n d (attempt False call) (c, w) =
          (Inr [], (call (calls w), onResponse (Some r) (w\<lparr>calls := Suc (calls w)\<rparr>)))"
    using assms(4) by (rule retry_first_Done[rotated])
  then show ?thesis using assms(2,3) by (simp add: after_retries_def)
qed

lemma calls_onResponse [simp]: "calls (onResponse r w) = calls w"
  by (simp add: onResponse_def)

lemma now_onResponse [simp]: "now (onResponse r w) = now w"
  by (simp add: onResponse_def)

lemma attempt_request_error:
  "err (call (calls w)) = Some e \<Longrightarrow>
   attempt legacy call (c, w) =
     (Failed (RequestFailed e), (call (calls w), w\<lparr>calls := Suc (calls w)\<rparr>))"
  by (simp add: attempt_def Let_def)

lemma attempt_never_sleeps: "now (snd (snd (attempt legacy call (c, w)))) = now w"
  by (auto simp: attempt_def Let_def handleRateLimitError_def isRateLimitError_def
      callResponseCallback_def onResponse_def split: option.splits sum.splits)

subsection \<open>Rate-limited attempts\<close>

text \<open>
  C1. The closure returns the wrapped error as soon as the client reports one, before
  it reaches \<open>handleRateLimitError\<close>, which therefore only ever sees a nil error and never
  sleeps: a rate-limited attempt ends as a failed attempt with the clock where it was.
  On an endpoint whose first call is rate-limited with a reset time 100 seconds
  ahead, \<open>ListReposByUser\<close> makes its second (successful) call after the base delay of one
  second, long before the reset; on an endpoint whose first five calls are rate-limited
  it gives up with the aggregated failure after five attempts, the budget of any other
  failure.
\<close>

theorem rate_limited_attempt_is_retried_without_waiting:
  "attempt False (rate_limited_then_ok 1 (100 * second) [7 :: nat]) (no_outcome [], world0)
     = (Failed (RequestFailed RateLimitError),
        (rate_limited_then_ok 1 (100 * second) [7] 0, world0\<lparr>calls := 1\<rparr>)) \<and>
   (\<exists>w'. ListReposByUser (\<lambda>usr opt. rate_limited_then_ok 1 (100 * second) [7 :: nat]) ''u'' world0
          = Some (Inr [7], w') \<and> calls w' = 2 \<and> now w' = second \<and> now w' < 100 * second) \<and>
   (\<exists>w'. ListReposByUser (\<lambda>usr opt. rate_limited_then_ok 5 (2 * second) [7 :: nat]) ''u'' world0
          = Some (Inl (Aggregated (replicate 5 (RequestFailed RateLimitError))), w') \<and> calls w' = 5)"
proof (intro conjI)
  show "attempt False (rate_limited_then_ok 1 (100 * second) [7 :: nat]) (no_outcome [], world0)
     = (Failed (RequestFailed RateLimitError),
        (rate_limited_then_ok 1 (100 * second) [7] 0, world0\<lparr>calls := 1\<rparr>))"
    by (subst attempt_request_error[where e = RateLimitError])
       (simp_all add: rate_limited_then_ok_def world0_def)
  show "\<exists>w'. ListReposByUser (\<lambda>usr opt. rate_limited_then_ok 1 (100 * second) [7 :: nat]) ''u'' world0
          = Some (Inr [7], w') \<and> calls w' = 2 \<and> now w' = second \<and> now w' < 100 * second"
    unfolding ListReposByUser_def
    by (subst ListReposByUser_loop.simps)
       (simp add: RetryExponentialBackoff_def eval_nat_numeral attempt_request_error attempt_ok
          rate_limited_then_ok_def after_retries_def world0_def Sleep_def second_def ok_response_def
          no_outcome_def onResponse_def)
  show "\<exists>w'. ListReposByUser (\<lambda>usr opt. rate_limited_then_ok 5 (2 * second) [7 :: nat]) ''u'' world0
          = Some (Inl (Aggregated (replicate 5 (RequestFailed RateLimitError))), w') \<and> calls w' = 5"
    unfolding ListReposByUser_def
    by (subst ListReposByUser_loop.simps)
       (simp add: RetryExponentialBackoff_def eval_nat_numeral attempt_request_error
          rate_limited_then_ok_def after_retries_def world0_def Sleep_def second_def
          no_outcome_def)
qed

subsection \<open>The not-found sentinel\<close>

text \<open>
  C9. On an endpoint that answers every attempt with a 404 and the client's error for
  it, \<open>GetPull\<close> returns \<open>ErrNotFound\<close>, while \<open>ListReposByUser\<close> returns the aggregated
  failure of its five attempts: it tests the error list before the status.
\<close>

theorem ListReposByUser_final_404_is_generic_failure:
  "(\<exists>w'. ListReposByUser (\<lambda>usr opt n. not_found_outcome []) ''u'' world0
          = Some (Inl (Aggregated (replicate 5 (RequestFailed ErrorResponse))), w')) \<and>
   fst (GetPull (\<lambda>ow rp num n. not_found_outcome (None :: nat option)) ''o'' ''r'' 1 world0)
     = Inl ErrNotFound"
  unfolding ListReposByUser_def
  by (subst ListReposByUser_loop.simps)
     (simp add: GetPull_def RetryExponentialBackoff_def eval_nat_numeral attempt_request_error
        not_found_outcome_def after_retries_def world0_def Sleep_def second_def)

subsection \<open>Page aggregation\<close>

lemma ListReposByUser_loop_pages:
  assumes "page_index (Page opt) = i" "i < length ps"
  shows "\<exists>w'. ListReposByUser_loop (\<lambda>usr opt n. serve_page ps opt) usr opt acc w
            = Some (Inr (acc @ concat (drop i ps)), w')
          \<and> calls w' = calls w + (length ps - i) \<and> now w' = now w"
  using assms
proof (induction "length ps - i" arbitrary: i opt acc w)
  case 0
  then show ?case by simp
next
  case (Suc k)
  let ?call = "\<lambda>n::nat. serve_page ps opt"
  let ?nx = "if Suc i < length ps then int i + 2 else 0"
  let ?w1 = "onResponse (Some (ok_response ?nx)) (w\<lparr>calls := Suc (calls w)\<rparr>)"
  have fetch: "after_retries (RetryExponentialBackoff 5 second (attempt False ?call) (no_outcome [], w))
      = (Inr (ps ! i, ok_response ?nx), ?w1)"
    using Suc.prems fetch_ok[of ?call w "ok_response ?nx" 5 second "no_outcome []"]
    by (simp add: serve_page_def ok_response_def)
  show ?case
  proof (cases "Suc i < length ps")
    case False
    then have d: "drop i ps = [ps ! i]" using Suc.prems
      by (metis Cons_nth_drop_Suc drop_all not_less)
    show ?thesis using False Suc.prems
      by (subst ListReposByUser_loop.simps) (simp add: fetch ok_response_def d)
  next
    case True
    have pi: "page_index (Page (opt\<lparr>Page := int i + 2\<rparr>)) = Suc i"
      by (simp add: page_index_def)
    have k: "k = length ps - Suc i" using Suc.hyps(2) by simp
    from Suc.hyps(1)[OF k pi True, of "acc @ ps ! i" ?w1]
    obtain w' where w': "ListReposByUser_loop (\<lambda>usr opt n. serve_page ps opt) usr
          (opt\<lparr>Page := int i + 2\<rparr>) (acc @ ps ! i) ?w1
        = Some (Inr ((acc @ ps ! i) @ concat (drop (Suc i) ps)), w')"
        "calls w' = calls ?w1 + (length ps - Suc i)" "now w' = now ?w1" by blast
    have d: "drop i ps = ps ! i # drop (Suc i) ps" using Suc.prems
      by (simp add: Cons_nth_drop_Suc)
    show ?thesis using True Suc.prems w'
      by (subst ListReposByUser_loop.simps) (simp add: fetch ok_response_def d)
  qed
qed

text \<open>
  C8. For an endpoint that serves K items over P pages (P at least 1),
  \<open>ListReposByUser\<close> returns exactly the concatenation of the pages in their order,
  after one request per page: it goes on while the next-page cursor is not zero and
  stops at the page whose cursor is zero.
\<close>

theorem ListReposByUser_returns_all_pages:
  assumes "ps \<noteq> []"
  shows "\<exists>w'. ListReposByUser (\<lambda>usr opt n. serve_page ps opt) usr w = Some (Inr (concat ps), w')
           \<and> calls w' = calls w + length ps"
proof -
  have "page_index (Page \<lparr>PerPage = 100, Page = 0\<rparr>) = 0" by (simp add: page_index_def)
  moreover have "0 < length ps" using assms by simp
  ultimately show ?thesis
    using ListReposByUser_loop_pages[of "\<lparr>PerPage = 100, Page = 0\<rparr>" 0 ps usr "[]" w]
    unfolding ListReposByUser_def by auto
qed

theorem ListReposByUser_returns_all_pages_witness:
  "[[1, 2], [3 :: nat]] \<noteq> [] \<and>
   (\<exists>w'. ListReposByUser (\<lambda>usr opt n. serve_page [[1, 2], [3 :: nat]] opt) ''u'' world0
            = Some (Inr [1, 2, 3], w') \<and> calls w' = 2)"
  using ListReposByUser_returns_all_pages[of "[[1, 2], [3 :: nat]]" "''u''" world0]
  by (simp add: world0_def numeral_2_eq_2)

subsection \<open>Early stop of the commit listing\<close>

lemma scan_commits_spec:
  "\<forall>c\<in>set cs. Commit c \<noteq> None \<Longrightarrow>
   scan_commits t m cs acc =
     Inr (\<not> list_all (\<lambda>c. \<not> tooOld t m c) cs, acc @ takeWhile (\<lambda>c. \<not> tooOld t m c) cs)"
  by (induction cs arbitrary: acc) (auto simp: tooOld_def)

lemma takeWhile_concat_Cons:
  "takeWhile P (concat (p # ps)) =
     (if list_all P p then p @ takeWhile P (concat ps) else takeWhile P p)"
  by (auto simp: list_all_iff takeWhile_append1 takeWhile_append2)

lemma ListCommits_loop_pages:
  assumes "page_index (Page opt) = i" "i < length ps" "\<forall>c\<in>set (concat ps). Commit c \<noteq> None"
    "0 < maxAge"
  shows "\<exists>w'. ListCommits_loop (\<lambda>ow rp os n. serve_page ps (ListOptions os)) ow rp os maxAge opt acc w
            = Some (Inr (acc @ takeWhile (\<lambda>c. \<not> tooOld (now w) maxAge c) (concat (drop i ps))), w')
          \<and> calls w' = calls w + pages_read (\<lambda>c. \<not> tooOld (now w) maxAge c) (drop i ps)
          \<and> now w' = now w"
  using assms(1,2)
proof (induction "length ps - i" arbitrary: i opt acc w)
  case 0
  then show ?case by simp
next
  case (Suc k)
  let ?ok = "\<lambda>c. \<not> tooOld (now w) maxAge c"
  let ?call = "\<lambda>n::nat. serve_page ps opt"
  let ?nx = "if Suc i < length ps then int i + 2 else 0"
  let ?w1 = "onResponse (Some (ok_response ?nx)) (w\<lparr>calls := Suc (calls w)\<rparr>)"
  have fetch: "after_retries (RetryExponentialBackoff 5 second (attempt False ?call) (no_outcome [], w))
      = (Inr (ps ! i, ok_response ?nx), ?w1)"
    using Suc.prems fetch_ok[of ?call w "ok_response ?nx" 5 second "no_outcome []"]
    by (simp add: serve_page_def ok_response_def)
  have d: "drop i ps = ps ! i # drop (Suc i) ps" using Suc.prems
    by (simp add: Cons_nth_drop_Suc)
  have "ps ! i \<in> set ps" using Suc.prems by simp
  then have "set (ps ! i) \<subseteq> set (concat ps)" by auto
  then have "\<forall>c\<in>set (ps ! i). Commit c \<noteq> None" using assms(3) by blast
  then have scan: "scan_commits (now w) maxAge (ps ! i) acc =
      Inr (\<not> list_all ?ok (ps ! i), acc @ takeWhile ?ok (ps ! i))"
    by (rule scan_commits_spec)
  show ?case
  proof (cases "list_all ?ok (ps ! i)")
    case False
    then show ?thesis using Suc.prems assms(4) unfolding d takeWhile_concat_Cons
      by (subst ListCommits_loop.simps) (simp add: fetch scan pages_read_def)
  next
    case all: True
    then have tw: "takeWhile ?ok (ps ! i) = ps ! i"
      by (simp add: list_all_iff)
    show ?thesis
    proof (cases "Suc i < length ps")
      case False
      then have e: "drop (Suc i) ps = []" by simp
      show ?thesis using False all Suc.prems assms(4) unfolding d takeWhile_concat_Cons e
        by (subst ListCommits_loop.simps)
           (simp add: fetch scan pages_read_def ok_response_def tw)
    next
      case True
      have pi: "page_index (Page (opt\<lparr>Page := int i + 2\<rparr>)) = Suc i"
        by (simp add: page_index_def)
      have k: "k = length ps - Suc i" using Suc.hyps(2) by simp
      from Suc.hyps(1)[OF k pi True, of "acc @ ps ! i" ?w1]
      obtain w' where w': "ListCommits_loop (\<lambda>ow rp os n. serve_page ps (ListOptions os)) ow rp os maxAge
           (opt\<lparr>Page := int i + 2\<rparr>) (acc @ ps ! i) ?w1
          = Some (Inr ((acc @ ps ! i) @ takeWhile ?ok (concat (drop (Suc i) ps))), w')"
          "calls w' = calls ?w1 + pages_read ?ok (drop (Suc i) ps)" "now w' = now ?w1"
        by auto
      have pr: "pages_read ?ok (ps ! i # drop (Suc i) ps) = Suc (pages_read ?ok (drop (Suc i) ps))"
        using all by (simp add: pages_read_def)
      show ?thesis using True all Suc.prems assms(4) w' unfolding d takeWhile_concat_Cons pr
        by (subst ListCommits_loop.simps)
           (simp add: fetch scan ok_response_def tw)
    qed
  qed
qed

lemma ListCommits_loop_all_pages:
  assumes "page_index (Page opt) = i" "i < length ps" "\<not> 0 < maxAge"
  shows "\<exists>w'. ListCommits_loop (\<lambda>ow rp os n. serve_page ps (ListOptions os)) ow rp os maxAge opt acc w
            = Some (Inr (acc @ concat (drop i ps)), w')
          \<and> calls w' = calls w + (length ps - i)"
  using assms(1,2)
proof (induction "length ps - i" arbitrary: i opt acc w)
  case 0
  then show ?case by simp
next
  case (Suc k)
  let ?call = "\<lambda>n::nat. serve_page ps opt"
  let ?nx = "if Suc i < length ps then int i + 2 else 0"
  let ?w1 = "onResponse (Some (ok_response ?nx)) (w\<lparr>calls := Suc (calls w)\<rparr>)"
  have fetch: "after_retries (RetryExponentialBackoff 5 second (attempt False ?call) (no_outcome [], w))
      = (Inr (ps ! i, ok_response ?nx), ?w1)"
    using Suc.prems fetch_ok[of ?call w "ok_response ?nx" 5 second "no_outcome []"]
    by (simp add: serve_page_def ok_response_def)
  have d: "drop i ps = ps ! i # drop (Suc i) ps" using Suc.prems
    by (simp add: Cons_nth_drop_Suc)
  show ?case
  proof (cases "Suc i < length ps")
    case False
    then have e: "drop (Suc i) ps = []" by simp
    show ?thesis using False Suc.prems assms(3) unfolding d e
      by (subst ListCommits_loop.simps) (simp add: fetch ok_response_def)
  next
    case True
    have pi: "page_index (Page (opt\<lparr>Page := int i + 2\<rparr>)) = Suc i"
      by (simp add: page_index_def)
    have k: "k = length ps - Suc i" using Suc.hyps(2) by simp
    from Suc.hyps(1)[OF k pi True, of "acc @ ps ! i" ?w1]
    obtain w' where w': "ListCommits_loop (\<lambda>ow rp os n. serve_page ps (ListOptions os)) ow rp os maxAge
         (opt\<lparr>Page := int i + 2\<rparr>) (acc @ ps ! i) ?w1
        = Some (Inr ((acc @ ps ! i) @ concat (drop (Suc i) ps)), w')"
        "calls w' = calls ?w1 + (length ps - Suc i)"
      by auto
    show ?thesis using True Suc.prems assms(3) w' unfolding d
      by (subst ListCommits_loop.simps) (simp add: fetch ok_response_def)
  qed
qed

text \<open>
  C5. For a commit listing served over the pages \<open>ps\<close> in which every commit carries its
  git commit: with a positive \<open>maxAge\<close>, \<open>ListCommits\<close> returns exactly the commits
  before the first one that is too old (author date more than \<open>maxAge\<close> before now),
  dropping that commit and all later ones of that page and of the later pages, and the
  page that holds it is the last page requested; with \<open>maxAge\<close> zero or negative every
  commit of every page is returned.
\<close>

theorem ListCommits_stops_at_first_old_commit:
  assumes "ps \<noteq> []" "\<forall>c\<in>set (concat ps). Commit c \<noteq> None"
  shows "\<exists>w'. ListCommits (\<lambda>ow rp os n. serve_page ps (ListOptions os)) ow rp os maxAge w
            = Some (Inr (if 0 < maxAge
                         then takeWhile (\<lambda>c. \<not> tooOld (now w) maxAge c) (concat ps)
                         else concat ps), w')
          \<and> calls w' = calls w + (if 0 < maxAge
                                    then pages_read (\<lambda>c. \<not> tooOld (now w) maxAge c) ps
                                    else length ps)"
proof -
  have pi: "page_index (Page \<lparr>PerPage = 100, Page = 0\<rparr>) = 0" by (simp add: page_index_def)
  have len: "0 < length ps" using assms(1) by simp
  show ?thesis
  proof (cases "0 < maxAge")
    case True
    then show ?thesis
      using ListCommits_loop_pages[OF pi len assms(2) True, of ow rp os "[]" w]
      unfolding ListCommits_def by auto
  next
    case False
    then show ?thesis
      using ListCommits_loop_all_pages[OF pi len False, of ow rp os "[]" w]
      unfolding ListCommits_def by auto
  qed
qed

theorem ListCommits_stops_at_first_old_commit_witness:
  "[[commit_by ''x'' ''x'' (-5), commit_by ''x'' ''y'' (-20), commit_by ''x'' ''x'' (-1)],
    [commit_by ''x'' ''x'' (-2)]] \<noteq> [] \<and>
   list_all (\<lambda>c. Commit c \<noteq> None)
     (concat [[commit_by ''x'' ''x'' (-5), commit_by ''x'' ''y'' (-20),
               commit_by ''x'' ''x'' (-1)], [commit_by ''x'' ''x'' (-2)]]) \<and>
   (\<exists>w'. ListCommits
            (\<lambda>ow rp os n. serve_page
               [[commit_by ''x'' ''x'' (-5), commit_by ''x'' ''y'' (-20), commit_by ''x'' ''x'' (-1)],
                [commit_by ''x'' ''x'' (-2)]] (ListOptions os))
            ''o'' ''r'' \<lparr>AuthorFilter = ''x'', PathFilter = [], ListOptions = \<lparr>PerPage = 0, Page = 0\<rparr>\<rparr>
            10 world0
          = Some (Inr [commit_by ''x'' ''x'' (-5)], w') \<and> calls w' = 1)"
  using ListCommits_stops_at_first_old_commit[of
      "[[commit_by ''x'' ''x'' (-5), commit_by ''x'' ''y'' (-20), commit_by ''x'' ''x'' (-1)],
        [commit_by ''x'' ''x'' (-2)]]"
      "''o''" "''r''"
      "\<lparr>AuthorFilter = ''x'', PathFilter = [], ListOptions = \<lparr>PerPage = 0, Page = 0\<rparr>\<rparr>" 10 world0]
  by (simp add: world0_def commit_by_def tooOld_def isTooOld_def time_Sub_def GetDate_def
        pages_read_def)

subsection \<open>Tree walk\<close>

lemma after_listing_ok: "after_listing rsp w = Inr (False, onResponse rsp w)"
  by (simp add: after_listing_def handleRateLimitError_def isRateLimitError_def)

lemma IsDir_entry [simp]: "IsDir (entry (Dir p ts))" "\<not> IsDir (entry (File p))"
  by (simp_all add: IsDir_def GetType_def)

lemma GetPath_entry [simp]: "GetPath (entry (Dir p ts)) = p"
  by (simp add: GetPath_def)

lemma walkFiles_Nil: "walkFiles client r walker [] s = Some (None, s)"
  by (subst walkFiles.simps) simp

lemma walk_tree:
  "serves client r t \<Longrightarrow> Validate r \<Longrightarrow>
   \<exists>w1. walkFiles client r recorder (entry t # rest) (seen, w)
         = walkFiles client r recorder rest (seen @ visit_order t, w1)"
proof (induction t arbitrary: rest seen w)
  case (File p)
  show ?case
    by (subst walkFiles.simps) (auto simp: recorder_def IsDir_def GetType_def)
next
  case (Dir p ts)
  have served: "list_all (serves client r) ts" using Dir.prems by simp
  have forest: "\<exists>w1. walkFiles client r recorder (map entry ts @ more) (seen', w')
         = walkFiles client r recorder more (seen' @ concat (map visit_order ts), w1)"
    for more seen' w'
    using served Dir.IH Dir.prems(2)
  proof (induction ts arbitrary: seen' w')
    case Nil
    show ?case by auto
  next
    case (Cons t ts)
    from Cons.prems(2)[of t "map entry ts @ more" seen' w'] Cons.prems(1,3)
    obtain w1 where a: "walkFiles client r recorder (entry t # map entry ts @ more) (seen', w')
         = walkFiles client r recorder (map entry ts @ more) (seen' @ visit_order t, w1)"
      by auto
    from Cons.IH[of "seen' @ visit_order t" w1] Cons.prems
    obtain w2 where b: "walkFiles client r recorder (map entry ts @ more) (seen' @ visit_order t, w1)
         = walkFiles client r recorder more ((seen' @ visit_order t) @ concat (map visit_order ts), w2)"
      by auto
    show ?case using a b by auto
  qed
  let ?out = "client (params_owner r) (params_repo r) p (calls w)"
  have l: "ListContents client r p w = (Inr (map entry ts, resp ?out), w\<lparr>calls := Suc (calls w)\<rparr>)"
    using Dir.prems by (simp add: ListContents_def Let_def)
  from forest[of "[]" seen "onResponse (resp ?out) (w\<lparr>calls := Suc (calls w)\<rparr>)"]
  obtain w1 where w1: "walkFiles client r recorder (map entry ts)
         (seen, onResponse (resp ?out) (w\<lparr>calls := Suc (calls w)\<rparr>))
       = walkFiles client r recorder [] (seen @ concat (map visit_order ts), w1)" by auto
  show ?case
    by (subst walkFiles.simps)
       (auto simp del: entry.simps simp add: l after_listing_ok w1 walkFiles_Nil recorder_def)
qed

lemma walk_forest:
  "list_all (serves client r) ts \<Longrightarrow> Validate r \<Longrightarrow>
   \<exists>w1. walkFiles client r recorder (map entry ts) (seen, w)
         = Some (None, (seen @ concat (map visit_order ts), w1))"
proof (induction ts arbitrary: seen w)
  case Nil
  show ?case by (simp add: walkFiles_Nil)
next
  case (Cons t ts)
  from walk_tree[of client r t "map entry ts" seen w] Cons.prems
  obtain w1 where a: "walkFiles client r recorder (entry t # map entry ts) (seen, w)
      = walkFiles client r recorder (map entry ts) (seen @ visit_order t, w1)" by auto
  from Cons.IH[of "seen @ visit_order t" w1] Cons.prems
  obtain w2 where b: "walkFiles client r recorder (map entry ts) (seen @ visit_order t, w1)
      = Some (None, ((seen @ visit_order t) @ concat (map visit_order ts), w2))" by auto
  show ?case using a b by auto
qed

lemma WalkFiles_order:
  assumes "Validate r" "serves client r (Dir (params_path r) ts)"
  shows "\<exists>w'. WalkFiles client r recorder (seen, w)
           = Some (None, (seen @ concat (map visit_order ts), w'))"
proof -
  let ?out = "client (params_owner r) (params_repo r) (params_path r) (calls w)"
  have l: "ListContents client r (params_path r) w
      = (Inr (map entry ts, resp ?out), w\<lparr>calls := Suc (calls w)\<rparr>)"
    using assms by (simp add: ListContents_def Let_def)
  have "list_all (serves client r) ts" using assms(2) by simp
  from walk_forest[OF this assms(1), of seen "onResponse (resp ?out) (w\<lparr>calls := Suc (calls w)\<rparr>)"]
  show ?thesis using assms(1) by (simp add: WalkFiles_def l after_listing_ok)
qed

text \<open>
  C6, as the code has it. When the remote serves the tree below the start path, the
  visitor is called on the nodes of each listing in listing order: on a file at once,
  on a directory after all nodes below it (each subtree completed), and never on the
  start path itself. For the tree \<open>root/{a.txt, sub/{b.txt}}\<close>, listed in that order, the
  calls are \<open>[a.txt, b.txt, sub]\<close>.
\<close>

theorem WalkFiles_visits_children_before_directory:
  assumes "Validate r" "serves client r (Dir (params_path r) ts)"
  shows "\<exists>w'. WalkFiles client r recorder (seen, w)
           = Some (None, (seen @ concat (map visit_order ts), w'))"
  using assms by (rule WalkFiles_order)

theorem WalkFiles_visits_children_before_directory_witness:
  "Validate (example_params ''root'') \<and>
   serves example_remote (example_params ''root'')
     (Dir (params_path (example_params ''root''))
        [File ''root/a.txt'', Dir ''root/sub'' [File ''root/sub/b.txt'']]) \<and>
   (\<exists>w'. WalkFiles example_remote (example_params ''root'') recorder ([], world0)
      = Some (None, ([entry (File ''root/a.txt''), entry (File ''root/sub/b.txt''),
                      entry (Dir ''root/sub'' [])], w')))"
  using WalkFiles_visits_children_before_directory[of "example_params ''root''" example_remote
      "[File ''root/a.txt'', Dir ''root/sub'' [File ''root/sub/b.txt'']]" "[]" world0]
  by (simp add: example_params_def example_remote_def Validate_def)

text \<open>
  The order \<open>[b.txt, sub, a.txt]\<close> that the spec gives for this tree is not the order
  of the calls.
\<close>

theorem WalkFiles_example_order_counterexample:
  "(\<exists>w'. WalkFiles example_remote (example_params ''root'') recorder ([], world0)
      = Some (None, ([entry (File ''root/a.txt''), entry (File ''root/sub/b.txt''),
                      entry (Dir ''root/sub'' [])], w'))) \<and>
   (\<forall>w'. WalkFiles example_remote (example_params ''root'') recorder ([], world0)
      \<noteq> Some (None, ([entry (File ''root/sub/b.txt''), entry (Dir ''root/sub'' []),
                      entry (File ''root/a.txt'')], w')))"
  using WalkFiles_order[of "example_params ''root''" example_remote
      "[File ''root/a.txt'', Dir ''root/sub'' [File ''root/sub/b.txt'']]" "[]" world0]
  by (auto simp: example_params_def example_remote_def Validate_def)

text \<open>
  C7. When the listing of the start path fails, \<open>WalkFiles\<close> panics with the error; a
  failed listing of a directory below it is returned as an error, with the rest of the
  traversal abandoned (here after the visit of \<open>a.txt\<close>, before \<open>sub\<close> and \<open>z.txt\<close>).
\<close>

theorem WalkFiles_root_listing_failure_panics:
  "(\<exists>s'. WalkFiles broken_remote (example_params ''missing'') recorder ([], world0)
       = Some (Some (Panic (PanicWith (RequestError ErrorResponse))), s')) \<and>
   (\<exists>w'. WalkFiles broken_remote (example_params ''root'') recorder ([], world0)
       = Some (Some (ListingFailed (RequestError ErrorResponse)), ([entry (File ''root/a.txt'')], w')))"
proof (intro conjI)
  show "\<exists>s'. WalkFiles broken_remote (example_params ''missing'') recorder ([], world0)
       = Some (Some (Panic (PanicWith (RequestError ErrorResponse))), s')"
    by (simp add: WalkFiles_def Validate_def example_params_def ListContents_def broken_remote_def
        not_found_outcome_def Let_def)
  show "\<exists>w'. WalkFiles broken_remote (example_params ''root'') recorder ([], world0)
       = Some (Some (ListingFailed (RequestError ErrorResponse)), ([entry (File ''root/a.txt'')], w'))"
    unfolding WalkFiles_def
    apply (simp add: Validate_def example_params_def ListContents_def broken_remote_def
        not_found_outcome_def Let_def after_listing_ok)
    apply (subst walkFiles.simps)
    apply (simp add: recorder_def IsDir_def GetType_def)
    apply (subst walkFiles.simps)
    apply (simp add: recorder_def IsDir_def GetType_def GetPath_def ListContents_def Validate_def
        not_found_outcome_def Let_def broken_remote_def)
    done
qed

subsection \<open>Exhaustive search: no identifier twice\<close>

lemma seen_inv_accept:
  "seen_inv st \<Longrightarrow> GetFullName repo \<notin> storeIndex st \<Longrightarrow>
   seen_inv (st\<lparr>latestStarCount := n, allRepos := allRepos st @ [repo],
                 storeIndex := insert (GetFullName repo) (storeIndex st)\<rparr>)"
  by (auto simp: seen_inv_def)

lemma scan_repos_seen_inv:
  "seen_inv st \<Longrightarrow> seen_inv (snd (scan_repos opts items st))"
proof (induction opts items st rule: scan_repos.induct)
  case (1 opts st)
  then show ?case by simp
next
  case (2 opts repo rest st)
  show ?case
  proof (cases "GetStargazersCount repo < MinStars opts")
    case True
    then show ?thesis using 2 by simp
  next
    case ms: False
    show ?thesis
    proof (cases "GetFullName repo \<notin> storeIndex st")
      case False
      then show ?thesis using 2 ms by simp
    next
      case True
      let ?st = "st\<lparr>latestStarCount := GetStargazersCount repo, allRepos := allRepos st @ [repo],
                 storeIndex := insert (GetFullName repo) (storeIndex st)\<rparr>"
      have i: "seen_inv ?st" using 2(3) True by (rule seen_inv_accept)
      show ?thesis using 2(1)[OF ms True refl _ i] ms True i
        by (simp add: Let_def)
    qed
  qed
qed

lemma scan_repos_storeIndex_mono:
  "storeIndex st \<subseteq> storeIndex (snd (scan_repos opts items st))"
  by (induction opts items st rule: scan_repos.induct) (auto simp: Let_def)

lemma seen_inv_restart [simp]: "seen_inv (restart st) = seen_inv st"
  by (simp add: seen_inv_def restart_def Let_def)

lemma seen_inv_page [simp]: "seen_inv (st\<lparr>opt_Page := p\<rparr>) = seen_inv st"
  by (simp add: seen_inv_def)

lemma loop_distinct:
  assumes "ListAllReposByLanguage_loop client opts st w = Some y"
  shows "seen_inv st \<longrightarrow> (\<forall>res w'. y = (Inr res, w') \<longrightarrow> distinct (map GetFullName res))"
proof (rule ListAllReposByLanguage_loop.raw_induct[where
        P = "\<lambda>client opts st w y. seen_inv st \<longrightarrow>
               (\<forall>res w'. y = (Inr res, w') \<longrightarrow> distinct (map GetFullName res))", OF _ assms],
    goal_cases)
  case (1 loop client opts st w y)
  show ?case
  proof (intro impI allI)
    fix res w'
    assume inv: "seen_inv st" and y: "y = (Inr res, w')"
    obtain a w1 where ar: "after_retries
             (RetryExponentialBackoff 9999 second
                (attempt False (client (query_of opts st) (search_opt st))) (no_outcome [], w)) = (a, w1)"
      by (cases "after_retries
             (RetryExponentialBackoff 9999 second
                (attempt False (client (query_of opts st) (search_opt st))) (no_outcome [], w))")
    show "distinct (map GetFullName res)"
    proof (cases a)
      case (Inl e)
      then show ?thesis using 1(2) ar y by simp
    next
      case (Inr pr)
      obtain repos r where pr: "pr = (repos, r)" by (cases pr)
      obtain brk st' where sc: "scan_repos opts repos st = (brk, st')"
        by (cases "scan_repos opts repos st")
      have inv': "seen_inv st'" using scan_repos_seen_inv[OF inv, of opts repos] sc by simp
      have rec: "distinct (map GetFullName res)"
        if "loop client opts st2 w1 = Some y" "seen_inv st2" for st2
        using 1(1)[OF that(1)] that(2) y by simp
      have stop: "distinct (map GetFullName res)" if "y = (Inr (allRepos st'), w1)"
        using that y inv' by (simp add: seen_inv_def)
      have body: "(if brk then Some (Inr (allRepos st'), w1)
                   else if NextPage r = 0 then
                     (if starLowerBound st' = 0 then Some (Inr (allRepos st'), w1)
                      else loop client opts (restart st') w1)
                   else loop client opts (st'\<lparr>opt_Page := NextPage r\<rparr>) w1) = Some y"
        using 1(2) by (simp add: ar Inr pr sc)
      show ?thesis
      proof (cases "brk \<or> (NextPage r = 0 \<and> starLowerBound st' = 0)")
        case True
        then have "y = (Inr (allRepos st'), w1)" using body by (cases brk) auto
        then show ?thesis by (rule stop)
      next
        case False
        show ?thesis
        proof (cases "NextPage r = 0")
          case True
          then have "loop client opts (restart st') w1 = Some y" using body False by simp
          then show ?thesis using inv' by (intro rec[of "restart st'"]) simp_all
        next
          case nz: False
          then have "loop client opts (st'\<lparr>opt_Page := NextPage r\<rparr>) w1 = Some y"
            using body False by simp
          then show ?thesis using inv'
            by (intro rec[of "st'\<lparr>opt_Page := NextPage r\<rparr>"]) simp_all
        qed
      qed
    qed
  qed
qed

subsection \<open>Exhaustive search: star counts do not increase\<close>

lemma search_window_sorted: "non_increasing (search_window cap ds q)"
proof -
  have "sorted (map GetStargazersCount (sort_key GetStargazersCount ds))"
    by (rule sorted_sort_key)
  then have "sorted_wrt (\<lambda>a b. GetStargazersCount a \<le> GetStargazersCount b)
               (sort_key GetStargazersCount ds)"
    by (simp add: sorted_wrt_map)
  then have "non_increasing (rev (sort_key GetStargazersCount ds))"
    unfolding non_increasing_def by (simp add: sorted_wrt_rev)
  then show ?thesis
    unfolding non_increasing_def search_window_def
    by (intro sorted_wrt_take sorted_wrt_filter)
qed

lemma search_window_bounded:
  "x \<in> set (search_window cap ds (q @ [StarsLe b])) \<Longrightarrow> GetStargazersCount x \<le> b"
  by (auto simp: search_window_def matches_def dest!: in_set_takeD)

lemma non_increasing_snoc:
  "non_increasing (xs @ [x]) \<longleftrightarrow>
     non_increasing xs \<and> (\<forall>y\<in>set xs. GetStargazersCount x \<le> GetStargazersCount y)"
  by (auto simp: non_increasing_def sorted_wrt_append)

lemma non_increasing_last:
  "non_increasing xs \<Longrightarrow> y \<in> set xs \<Longrightarrow> GetStargazersCount (last xs) \<le> GetStargazersCount y"
proof (induction xs rule: rev_induct)
  case Nil
  then show ?case by simp
next
  case (snoc x xs)
  then show ?case by (auto simp: non_increasing_snoc)
qed

lemma scan_repos_order:
  assumes "non_increasing items" "non_increasing (allRepos st)"
    "allRepos st = [] \<or> latestStarCount st \<le> GetStargazersCount (last (allRepos st)) \<and>
       (\<forall>x\<in>set items. GetStargazersCount x \<le> latestStarCount st)"
  shows "non_increasing (allRepos (snd (scan_repos opts items st))) \<and>
         (allRepos (snd (scan_repos opts items st)) = [] \<or>
            latestStarCount (snd (scan_repos opts items st))
              \<le> GetStargazersCount (last (allRepos (snd (scan_repos opts items st))))) \<and>
         (allRepos (snd (scan_repos opts items st)) = allRepos st \<and>
            latestStarCount (snd (scan_repos opts items st)) = latestStarCount st \<or>
          allRepos (snd (scan_repos opts items st)) \<noteq> [] \<and>
            (\<exists>x\<in>set items. latestStarCount (snd (scan_repos opts items st)) = GetStargazersCount x))"
  using assms
proof (induction opts items st rule: scan_repos.induct)
  case (1 opts st)
  then show ?case by simp
next
  case (2 opts repo rest st)
  have rest: "non_increasing rest" and le: "\<forall>x\<in>set rest. GetStargazersCount x \<le> GetStargazersCount repo"
    using 2(3) by (simp_all add: non_increasing_def)
  show ?case
  proof (cases "GetStargazersCount repo < MinStars opts")
    case True
    then show ?thesis using 2(4,5) by auto
  next
    case ms: False
    show ?thesis
    proof (cases "GetFullName repo \<notin> storeIndex st")
      case False
      have "allRepos st = [] \<or> latestStarCount st \<le> GetStargazersCount (last (allRepos st)) \<and>
         (\<forall>x\<in>set rest. GetStargazersCount x \<le> latestStarCount st)" using 2(5) by auto
      from 2(2)[OF ms False rest 2(4) this] show ?thesis using ms False by auto
    next
      case True
      let ?st = "st\<lparr>latestStarCount := GetStargazersCount repo, allRepos := allRepos st @ [repo],
                 storeIndex := insert (GetFullName repo) (storeIndex st)\<rparr>"
      have "\<forall>y\<in>set (allRepos st). GetStargazersCount repo \<le> GetStargazersCount y"
      proof
        fix y assume y: "y \<in> set (allRepos st)"
        then have ne: "allRepos st \<noteq> []" by auto
        have "GetStargazersCount repo \<le> latestStarCount st" using 2(5) ne by simp
        also have "\<dots> \<le> GetStargazersCount (last (allRepos st))" using 2(5) ne by simp
        also have "\<dots> \<le> GetStargazersCount y" using non_increasing_last[OF 2(4) y] .
        finally show "GetStargazersCount repo \<le> GetStargazersCount y" .
      qed
      then have s2: "non_increasing (allRepos ?st)" using 2(4) by (simp add: non_increasing_snoc)
      have c2: "allRepos ?st = [] \<or> latestStarCount ?st \<le> GetStargazersCount (last (allRepos ?st)) \<and>
         (\<forall>x\<in>set rest. GetStargazersCount x \<le> latestStarCount ?st)" using le by simp
      show ?thesis
      proof (cases "0 < Limit opts \<and> Limit opts \<le> int (length (allRepos ?st))")
        case lim: True
        then have "scan_repos opts (repo # rest) st = (True, ?st)" using ms True
          by (simp add: Let_def)
        then show ?thesis using s2 by simp
      next
        case lim: False
        have eq: "scan_repos opts (repo # rest) st = scan_repos opts rest ?st" using ms True lim
          by (auto simp: Let_def)
        from 2(1)[OF ms True refl lim rest s2 c2] show ?thesis unfolding eq by auto
      qed
    qed
  qed
qed

lemma scan_repos_keeps:
  "useStarBound (snd (scan_repos opts items st)) = useStarBound st \<and>
   starLowerBound (snd (scan_repos opts items st)) = starLowerBound st \<and>
   opt_Page (snd (scan_repos opts items st)) = opt_Page st"
  by (induction opts items st rule: scan_repos.induct) (simp_all add: Let_def)


lemma search_fetch:
  "after_retries (RetryExponentialBackoff 9999 second
      (attempt False (search_endpoint cap ds (query_of opts st) (search_opt st))) (no_outcome [], w))
   = (Inr (take 100 (upcoming cap ds opts st),
           ok_response (if Suc (page_index (opt_Page st)) * 100
                            < length (search_window cap ds (query_of opts st))
                        then int (page_index (opt_Page st)) + 2 else 0)),
      onResponse (Some (ok_response (if Suc (page_index (opt_Page st)) * 100
                            < length (search_window cap ds (query_of opts st))
                        then int (page_index (opt_Page st)) + 2 else 0)))
        (w\<lparr>calls := Suc (calls w)\<rparr>))"
  by (subst fetch_ok[where r = "ok_response (if Suc (page_index (opt_Page st)) * 100
                            < length (search_window cap ds (query_of opts st))
                        then int (page_index (opt_Page st)) + 2 else 0)"])
     (simp_all add: search_endpoint_def search_opt_def upcoming_def ok_response_def Let_def)

lemma upcoming_sorted: "non_increasing (upcoming cap ds opts st)"
  using search_window_sorted[of cap ds "query_of opts st"]
  unfolding upcoming_def non_increasing_def by (rule sorted_wrt_drop)

lemma take_sorted: "non_increasing xs \<Longrightarrow> non_increasing (take n xs)"
  unfolding non_increasing_def by (rule sorted_wrt_take)

lemma take_above_drop:
  assumes "non_increasing xs" "x \<in> set (take n xs)" "y \<in> set (drop n xs)"
  shows "GetStargazersCount y \<le> GetStargazersCount x"
proof -
  have "non_increasing (take n xs @ drop n xs)" using assms(1) by simp
  then show ?thesis using assms(2,3) unfolding non_increasing_def sorted_wrt_append by blast
qed

lemma order_inv_step:
  assumes inv: "order_inv cap ds opts st"
    and sc: "scan_repos opts (take 100 (upcoming cap ds opts st)) st = (brk, st')"
  shows "non_increasing (allRepos st')"
    and "order_inv cap ds opts (restart st')"
    and "opt_Page' = int (page_index (opt_Page st)) + 2 \<Longrightarrow>
         order_inv cap ds opts (st'\<lparr>opt_Page := opt_Page'\<rparr>)"
proof -
  let ?U = "upcoming cap ds opts st"
  let ?items = "take 100 ?U"
  have st': "st' = snd (scan_repos opts ?items st)" using sc by simp
  have items: "non_increasing ?items" by (intro take_sorted upcoming_sorted)
  have acc: "non_increasing (allRepos st)" using inv by (simp add: order_inv_def)
  have pre: "allRepos st = [] \<or> latestStarCount st \<le> GetStargazersCount (last (allRepos st)) \<and>
       (\<forall>x\<in>set ?items. GetStargazersCount x \<le> latestStarCount st)"
    using inv by (auto simp: order_inv_def list_all_iff dest: in_set_takeD)
  note scan = scan_repos_order[OF items acc pre, of opts, folded st']
  note keeps = scan_repos_keeps[of opts ?items st, folded st']
  show sorted: "non_increasing (allRepos st')" using scan by simp
  have last: "allRepos st' = [] \<or> latestStarCount st' \<le> GetStargazersCount (last (allRepos st'))"
    using scan by simp
  show "order_inv cap ds opts (restart st')"
  proof -
    have q: "query_of opts (restart st')
        = queryFragments opts @ [StarsLe (latestStarCount (restart st'))]"
      by (simp add: query_of_def restart_def Let_def)
    have "list_all (\<lambda>x. GetStargazersCount x \<le> latestStarCount (restart st'))
            (upcoming cap ds opts (restart st'))"
      unfolding upcoming_def q list_all_iff
      by (auto dest!: in_set_dropD search_window_bounded)
    moreover have "latestStarCount (restart st') \<le> latestStarCount st'"
      by (simp add: restart_def Let_def)
    moreover have "allRepos (restart st') = allRepos st'"
      by (simp add: restart_def Let_def)
    ultimately show ?thesis using sorted last unfolding order_inv_def by auto
  qed
  show "order_inv cap ds opts (st'\<lparr>opt_Page := opt_Page'\<rparr>)"
    if p: "opt_Page' = int (page_index (opt_Page st)) + 2"
  proof -
    have pi: "page_index opt_Page' = Suc (page_index (opt_Page st))"
      using p by (simp add: page_index_def)
    have "query_of opts (st'\<lparr>opt_Page := opt_Page'\<rparr>) = query_of opts st"
      using keeps by (simp add: query_of_def)
    then have up: "upcoming cap ds opts (st'\<lparr>opt_Page := opt_Page'\<rparr>) = drop 100 ?U"
      by (simp add: upcoming_def pi add.commute)
    have "list_all (\<lambda>x. GetStargazersCount x \<le> latestStarCount st') (drop 100 ?U)"
      if ne: "allRepos st' \<noteq> []"
    proof -
      from scan consider "allRepos st' = allRepos st" "latestStarCount st' = latestStarCount st"
        | x where "x \<in> set ?items" "latestStarCount st' = GetStargazersCount x" by blast
      then show ?thesis
      proof cases
        case 1
        then have "list_all (\<lambda>x. GetStargazersCount x \<le> latestStarCount st') ?U"
          using inv ne by (simp add: order_inv_def)
        then show ?thesis by (auto simp: list_all_iff dest: in_set_dropD)
      next
        case 2
        show ?thesis unfolding list_all_iff 2(2)
          using take_above_drop[OF upcoming_sorted 2(1)] by blast
      qed
    qed
    then show ?thesis using sorted last unfolding order_inv_def up by auto
  qed
qed


lemma loop_sorted:
  assumes "ListAllReposByLanguage_loop client opts st w = Some y"
  shows "client = search_endpoint cap ds \<and> order_inv cap ds opts st \<longrightarrow>
           (\<forall>res w'. y = (Inr res, w') \<longrightarrow> non_increasing res)"
proof (rule ListAllReposByLanguage_loop.raw_induct[where
        P = "\<lambda>client opts st w y. client = search_endpoint cap ds \<and> order_inv cap ds opts st \<longrightarrow>
               (\<forall>res w'. y = (Inr res, w') \<longrightarrow> non_increasing res)", OF _ assms],
    goal_cases)
  case (1 loop client opts st w y)
  show ?case
  proof (intro impI allI, elim conjE)
    fix res w'
    assume cl: "client = search_endpoint cap ds" and inv: "order_inv cap ds opts st"
      and y: "y = (Inr res, w')"
    define nx where "nx = (if Suc (page_index (opt_Page st)) * 100
                                < length (search_window cap ds (query_of opts st))
                           then int (page_index (opt_Page st)) + 2 else 0)"
    define w1 where "w1 = onResponse (Some (ok_response nx)) (w\<lparr>calls := Suc (calls w)\<rparr>)"
    have fetch: "after_retries (RetryExponentialBackoff 9999 second
        (attempt False (search_endpoint cap ds (query_of opts st) (search_opt st))) (no_outcome [], w))
      = (Inr (take 100 (upcoming cap ds opts st), ok_response nx), w1)"
      unfolding nx_def w1_def by (rule search_fetch)
    obtain brk st' where sc: "scan_repos opts (take 100 (upcoming cap ds opts st)) st = (brk, st')"
      by (cases "scan_repos opts (take 100 (upcoming cap ds opts st)) st")
    note step = order_inv_step[OF inv sc]
    have np: "NextPage (ok_response nx) = nx" by (simp add: ok_response_def)
    have body: "(if brk then Some (Inr (allRepos st'), w1)
                 else if nx = 0 then
                   (if starLowerBound st' = 0 then Some (Inr (allRepos st'), w1)
                    else loop client opts (restart st') w1)
                 else loop client opts (st'\<lparr>opt_Page := nx\<rparr>) w1) = Some y"
      using 1(2) unfolding cl fetch by (simp add: sc np cong: if_cong)
    have rec: "non_increasing res"
      if "loop client opts st2 w1 = Some y" "order_inv cap ds opts st2" for st2
      using 1(1)[OF that(1)] that(2) y cl by simp
    show "non_increasing res"
    proof (cases "brk \<or> (nx = 0 \<and> starLowerBound st' = 0)")
      case True
      then have "y = (Inr (allRepos st'), w1)" using body by (cases brk) auto
      then show ?thesis using step(1) y by simp
    next
      case False
      show ?thesis
      proof (cases "nx = 0")
        case True
        then have "loop client opts (restart st') w1 = Some y" using body False by simp
        then show ?thesis using step(2) by (rule rec)
      next
        case nz: False
        then have nx: "nx = int (page_index (opt_Page st)) + 2"
          unfolding nx_def by (simp split: if_splits)
        have "loop client opts (st'\<lparr>opt_Page := nx\<rparr>) w1 = Some y"
          using body False nz by simp
        then show ?thesis using step(3)[OF nx] by (rule rec)
      qed
    qed
  qed
qed


lemma one_page_fetch:
  "after_retries (RetryExponentialBackoff 9999 second
      (attempt False (one_page items q opt)) (no_outcome [], w))
   = (Inr (items, ok_response 0), onResponse (Some (ok_response 0)) (w\<lparr>calls := Suc (calls w)\<rparr>))"
  by (subst fetch_ok[where r = "ok_response 0"]) (simp_all add: one_page_def ok_response_def)

lemma unsorted_page_example:
  "\<exists>w'. ListAllReposByLanguage (one_page [repo_named ''a'' 1, repo_named ''b'' 5])
            (Some (opts_for ''go'')) world0
          = Some (Inr [repo_named ''a'' 1, repo_named ''b'' 5], w')"
  unfolding ListAllReposByLanguage_def
  apply (simp add: Validate_opts_def opts_for_def)
  apply (subst ListAllReposByLanguage_loop.simps)
  apply (simp add: one_page_fetch repo_named_def GetStargazersCount_def GetFullName_def
      ok_response_def restart_def Let_def)
  apply (subst ListAllReposByLanguage_loop.simps)
  apply (simp add: one_page_fetch repo_named_def GetStargazersCount_def GetFullName_def
      ok_response_def restart_def Let_def)
  apply (subst ListAllReposByLanguage_loop.simps)
  apply (simp add: one_page_fetch repo_named_def GetStargazersCount_def GetFullName_def
      ok_response_def restart_def Let_def)
  apply (subst ListAllReposByLanguage_loop.simps)
  apply (simp add: one_page_fetch repo_named_def GetStargazersCount_def GetFullName_def
      ok_response_def restart_def Let_def)
  apply (subst ListAllReposByLanguage_loop.simps)
  apply (simp add: one_page_fetch repo_named_def GetStargazersCount_def GetFullName_def
      ok_response_def restart_def Let_def)
  apply (subst ListAllReposByLanguage_loop.simps)
  apply (simp add: one_page_fetch repo_named_def GetStargazersCount_def GetFullName_def
      ok_response_def restart_def Let_def)
  apply (subst ListAllReposByLanguage_loop.simps)
  apply (simp add: one_page_fetch repo_named_def GetStargazersCount_def GetFullName_def
      ok_response_def restart_def Let_def)
  done

lemma search_example:
  "\<exists>w'. ListAllReposByLanguage
            (search_endpoint 2 [repo_named ''a'' 2, repo_named ''b'' 1, repo_named ''c'' 1])
            (Some (opts_for ''go'')) world0
          = Some (Inr [repo_named ''a'' 2, repo_named ''c'' 1, repo_named ''b'' 1], w')"
  unfolding ListAllReposByLanguage_def
  apply (simp add: Validate_opts_def opts_for_def)
  apply (subst ListAllReposByLanguage_loop.simps)
  apply (subst search_fetch)
  apply (simp add: upcoming_def search_window_def matches_def query_of_def
      queryFragments_def page_index_def repo_named_def GetStargazersCount_def GetFullName_def
      ok_response_def restart_def Let_def)
  apply (subst ListAllReposByLanguage_loop.simps)
  apply (subst search_fetch)
  apply (simp add: upcoming_def search_window_def matches_def query_of_def
      queryFragments_def page_index_def repo_named_def GetStargazersCount_def GetFullName_def
      ok_response_def restart_def Let_def)
  apply (subst ListAllReposByLanguage_loop.simps)
  apply (subst search_fetch)
  apply (simp add: upcoming_def search_window_def matches_def query_of_def
      queryFragments_def page_index_def repo_named_def GetStargazersCount_def GetFullName_def
      ok_response_def restart_def Let_def)
  done


text \<open>
  C3, as the code has it. The result of \<open>ListAllReposByLanguage\<close> holds each full-name
  identifier at most once, whatever pages the endpoint serves: a repository whose
  identifier is in the index is skipped, and the index only grows (a page scan and a
  restart never remove an identifier). The star counts of the result do not increase
  when the endpoint is a search over a dataset that serves each query in descending
  star order and honours the \<open>stars:<=N\<close> bound.
\<close>

theorem exhaustive_search_distinct_and_non_increasing:
  "(ListAllReposByLanguage client opts w = Some (Inr res, w')
      \<longrightarrow> distinct (map GetFullName res)) \<and>
   (ListAllReposByLanguage (search_endpoint cap ds) opts w = Some (Inr res, w')
      \<longrightarrow> non_increasing res) \<and>
   storeIndex st \<subseteq> storeIndex (snd (scan_repos x items st)) \<and>
   storeIndex (restart st) = storeIndex st \<and>
   (GetFullName repo \<in> storeIndex st \<and> \<not> GetStargazersCount repo < MinStars x
      \<longrightarrow> scan_repos x (repo # rest) st = scan_repos x rest st)"
proof (intro conjI impI)
  let ?st0 = "\<lparr>opt_Page = 0, useStarBound = False, starLowerBound = - 1, latestStarCount = 0,
               allRepos = [], storeIndex = {}\<rparr>"
  have s0: "seen_inv ?st0" by (simp add: seen_inv_def)
  have o0: "order_inv cap ds z ?st0" for z by (simp add: order_inv_def non_increasing_def)
  show "distinct (map GetFullName res)"
    if "ListAllReposByLanguage client opts w = Some (Inr res, w')"
  proof (cases opts)
    case None
    then show ?thesis using that by (simp add: ListAllReposByLanguage_def Validate_opts_def)
  next
    case (Some z)
    then have "ListAllReposByLanguage_loop client z ?st0 w = Some (Inr res, w')"
      using that by (simp add: ListAllReposByLanguage_def split: option.splits)
    from loop_distinct[OF this] s0 show ?thesis by simp
  qed
  show "non_increasing res"
    if "ListAllReposByLanguage (search_endpoint cap ds) opts w = Some (Inr res, w')"
  proof (cases opts)
    case None
    then show ?thesis using that by (simp add: ListAllReposByLanguage_def Validate_opts_def)
  next
    case (Some z)
    then have "ListAllReposByLanguage_loop (search_endpoint cap ds) z ?st0 w = Some (Inr res, w')"
      using that by (simp add: ListAllReposByLanguage_def split: option.splits)
    from loop_sorted[OF this, of cap ds] o0[of z] show ?thesis by simp
  qed
  show "storeIndex st \<subseteq> storeIndex (snd (scan_repos x items st))"
    by (rule scan_repos_storeIndex_mono)
  show "storeIndex (restart st) = storeIndex st"
    by (simp add: restart_def Let_def)
  show "scan_repos x (repo # rest) st = scan_repos x rest st"
    if "GetFullName repo \<in> storeIndex st \<and> \<not> GetStargazersCount repo < MinStars x"
    using that by simp
qed

theorem exhaustive_search_distinct_and_non_increasing_witness:
  "(\<exists>w'. ListAllReposByLanguage
            (search_endpoint 2 [repo_named ''a'' 2, repo_named ''b'' 1, repo_named ''c'' 1])
            (Some (opts_for ''go'')) world0
          = Some (Inr [repo_named ''a'' 2, repo_named ''c'' 1, repo_named ''b'' 1], w')) \<and>
   distinct (map GetFullName [repo_named ''a'' 2, repo_named ''c'' 1, repo_named ''b'' 1]) \<and>
   non_increasing [repo_named ''a'' 2, repo_named ''c'' 1, repo_named ''b'' 1]"
proof -
  from search_example obtain w' where e: "ListAllReposByLanguage
            (search_endpoint 2 [repo_named ''a'' 2, repo_named ''b'' 1, repo_named ''c'' 1])
            (Some (opts_for ''go'')) world0
          = Some (Inr [repo_named ''a'' 2, repo_named ''c'' 1, repo_named ''b'' 1], w')" ..
  from exhaustive_search_distinct_and_non_increasing[of
      "search_endpoint 2 [repo_named ''a'' 2, repo_named ''b'' 1, repo_named ''c'' 1]"
      "Some (opts_for ''go'')" world0
      "[repo_named ''a'' 2, repo_named ''c'' 1, repo_named ''b'' 1]" w'
      2 "[repo_named ''a'' 2, repo_named ''b'' 1, repo_named ''c'' 1]"] e
  show ?thesis by blast
qed

text \<open>
  On an endpoint that serves a page in ascending star order the result keeps that
  order: the code does not sort.
\<close>

theorem exhaustive_search_order_counterexample:
  "(\<exists>w'. ListAllReposByLanguage (one_page [repo_named ''a'' 1, repo_named ''b'' 5])
            (Some (opts_for ''go'')) world0
          = Some (Inr [repo_named ''a'' 1, repo_named ''b'' 5], w')) \<and>
   \<not> non_increasing [repo_named ''a'' 1, repo_named ''b'' 5]"
  using unsorted_page_example
  by (simp add: non_increasing_def repo_named_def GetStargazersCount_def)

subsection \<open>Exhaustive search: termination\<close>
















subsection \<open>Shadow members\<close>

lemma isShadowMember_iff: "isShadowMember commits = (\<exists>c \<in> set commits. isDirectCommit c)"
  by (induction commits) auto

text \<open>
  C4, as the code has it. The classifier marks the contributor as shadow member if and
  only if at least one commit of the list is direct, and a commit is direct exactly
  when its author login equals its committer login. A list in which every commit has an
  author different from its committer is not shadow. A list of commits whose committer
  is the merge-bot identity \<open>web-flow\<close> is not shadow when no author login is \<open>web-flow\<close>;
  a commit whose committer and author are both \<open>web-flow\<close> is direct and makes the
  contributor shadow.
\<close>

theorem isShadowMember_iff_direct_commit:
  "(isShadowMember commits \<longleftrightarrow> (\<exists>c \<in> set commits. isDirectCommit c)) \<and>
   (isDirectCommit c \<longleftrightarrow> GetLogin (Author c) = GetLogin (Committer c)) \<and>
   ((\<forall>c \<in> set commits. isModeratedPRCommit c) \<longrightarrow> \<not> isShadowMember commits) \<and>
   ((\<forall>c \<in> set commits. isMergedByCommitterCommit c \<and> GetLogin (Author c) \<noteq> ''web-flow'')
      \<longrightarrow> \<not> isShadowMember commits) \<and>
   (isMergedByCommitterCommit c \<and> GetLogin (Author c) = ''web-flow'' \<and> c \<in> set commits
      \<longrightarrow> isDirectCommit c \<and> isShadowMember commits)"
proof (intro conjI impI)
  show "isShadowMember commits \<longleftrightarrow> (\<exists>c \<in> set commits. isDirectCommit c)"
    by (rule isShadowMember_iff)
  show "isDirectCommit c \<longleftrightarrow> GetLogin (Author c) = GetLogin (Committer c)"
    by (simp add: isDirectCommit_def)
  show "\<not> isShadowMember commits" if "\<forall>c \<in> set commits. isModeratedPRCommit c"
    using that by (auto simp: isShadowMember_iff isDirectCommit_def isModeratedPRCommit_def)
  show "\<not> isShadowMember commits"
    if "\<forall>c \<in> set commits. isMergedByCommitterCommit c \<and> GetLogin (Author c) \<noteq> ''web-flow''"
    using that
    by (auto simp: isShadowMember_iff isDirectCommit_def isMergedByCommitterCommit_def)
  assume m: "isMergedByCommitterCommit c \<and> GetLogin (Author c) = ''web-flow'' \<and> c \<in> set commits"
  then show d: "isDirectCommit c"
    by (simp add: isDirectCommit_def isMergedByCommitterCommit_def)
  show "isShadowMember commits" using m d by (auto simp: isShadowMember_iff)
qed

theorem isShadowMember_iff_direct_commit_witness:
  "isModeratedPRCommit (commit_by ''x'' ''web-flow'' 0) \<and>
   isMergedByCommitterCommit (commit_by ''x'' ''web-flow'' 0) \<and>
   GetLogin (Author (commit_by ''x'' ''web-flow'' 0)) \<noteq> ''web-flow'' \<and>
   \<not> isShadowMember [commit_by ''x'' ''web-flow'' 0] \<and>
   isMergedByCommitterCommit (commit_by ''web-flow'' ''web-flow'' 0) \<and>
   GetLogin (Author (commit_by ''web-flow'' ''web-flow'' 0)) = ''web-flow'' \<and>
   isDirectCommit (commit_by ''web-flow'' ''web-flow'' 0) \<and>
   isShadowMember [commit_by ''x'' ''web-flow'' 0, commit_by ''web-flow'' ''web-flow'' 0] \<and>
   isShadowMember [commit_by ''x'' ''y'' 0, commit_by ''x'' ''x'' 0] \<and>
   \<not> isShadowMember [commit_by ''x'' ''y'' 0]"
  using isShadowMember_iff_direct_commit[of "[commit_by ''x'' ''web-flow'' 0]" bare_commit]
    isShadowMember_iff_direct_commit[of
      "[commit_by ''x'' ''web-flow'' 0, commit_by ''web-flow'' ''web-flow'' 0]"
      "commit_by ''web-flow'' ''web-flow'' 0"]
    isShadowMember_iff_direct_commit[of "[commit_by ''x'' ''y'' 0, commit_by ''x'' ''x'' 0]" bare_commit]
    isShadowMember_iff_direct_commit[of "[commit_by ''x'' ''y'' 0]" bare_commit]
  by (simp add: commit_by_def isDirectCommit_def isModeratedPRCommit_def
        isMergedByCommitterCommit_def GetLogin_def)

text \<open>
  A single commit whose committer is the merge-bot identity, with the same author
  login, makes the contributor shadow on its own.
\<close>

theorem web_flow_commit_counterexample:
  "isMergedByCommitterCommit (commit_by ''web-flow'' ''web-flow'' 0) \<and>
   isShadowMember [commit_by ''web-flow'' ''web-flow'' 0]"
  by (simp add: commit_by_def isDirectCommit_def isMergedByCommitterCommit_def GetLogin_def)

text \<open>
  C10. A commit whose author login and committer login are both absent (both read as
  the empty string) is direct, so a contributor with one such commit in the list is
  classified as shadow member.
\<close>

theorem commit_without_logins_is_direct:
  assumes "GetLogin (Author c) = []" "GetLogin (Committer c) = []" "c \<in> set commits"
  shows "isDirectCommit c \<and> isShadowMember commits"
proof -
  have "isDirectCommit c" using assms(1,2) by (simp add: isDirectCommit_def)
  then show ?thesis using assms(3) by (auto simp: isShadowMember_iff)
qed

theorem commit_without_logins_is_direct_witness:
  "GetLogin (Author bare_commit) = [] \<and> GetLogin (Committer bare_commit) = [] \<and>
   bare_commit \<in> set [commit_by ''x'' ''y'' 0, bare_commit] \<and>
   isDirectCommit bare_commit \<and> isShadowMember [commit_by ''x'' ''y'' 0, bare_commit]"
  using commit_without_logins_is_direct[of bare_commit "[commit_by ''x'' ''y'' 0, bare_commit]"]
  by (simp add: bare_commit_def GetLogin_def)

end
